theory Spec2Isabelle
  imports Complex_Main "HOL-Library.Word" "HOL-Library.Multiset" "HOL-Library.AList"
begin

section \<open>Data model\<close>

text \<open>
  The receiver of go-batsd, \<^verbatim>\<open>src/receiver/receiver.go\<close>, and the dispatcher-fed
  engine loop of \<^verbatim>\<open>src/receiver.go\<close>.

  A \<^verbatim>\<open>float64\<close> is an arbitrary type \<open>'v\<close>: the engines only add values, compare them
  with zero and print them, so the model asks for \<open>0\<close>, \<open>+\<close> and \<open><\<close> on \<open>'v\<close> and
  assumes no law about them. Where a theorem depends on what the addition yields, \<open>'v\<close> is
  the type \<open>float64\<close> defined below, whose addition rounds. What the Go standard library
  and third-party packages compute is a parameter of the function that calls them:
  \<^item> \<open>parseFloat\<close>: the value \<^verbatim>\<open>strconv.ParseFloat(s, 64)\<close> returns (the source drops the
    error);
  \<^item> \<open>fmtFloat\<close>: \<^verbatim>\<open>%v\<close> of a \<^verbatim>\<open>float64\<close>;
  \<^item> \<open>hash\<close>: \<^verbatim>\<open>mmh3.Hash32\<close>, a \<^verbatim>\<open>uint32\<close>;
  \<^item> \<open>retentions\<close>: \<^verbatim>\<open>shared.Config.Retentions[i].Interval\<close>, a list of \<^verbatim>\<open>int64\<close>.
  An \<^verbatim>\<open>int64\<close> is an \<open>int\<close>: the timestamps, intervals and slot numbers of the source
  stay far from the 64-bit range. A \<^verbatim>\<open>time.Time\<close> is the \<open>int\<close> its \<^verbatim>\<open>Unix()\<close> returns,
  the only thing the source reads of it.
\<close>

record 'v Datapoint =
  Timestamp :: int
  Name :: string
  Value :: 'v
  Datatype :: string

record AggregateObservation =
  Name :: string
  Content :: string
  Timestamp :: int

text \<open>
  A send on one of the two observation channels, \<^verbatim>\<open>diskAppendChannel <- observation\<close>
  or \<^verbatim>\<open>redisAppendChannel <- observation\<close>. An engine's output is the list of its sends,
  in the order it makes them.
\<close>

datatype chan_send = ToDisk AggregateObservation | ToRedis AggregateObservation

datatype error = Panic

subsection \<open>Integers as text\<close>

text \<open>\<^verbatim>\<open>%d\<close> of an \<^verbatim>\<open>int64\<close> and \<^verbatim>\<open>strconv.FormatInt(n, 10)\<close>: decimal digits, a minus sign first
  for a negative number.\<close>

definition digitChar :: "nat \<Rightarrow> char" where
  "digitChar n = ''0123456789'' ! n"

function showNat :: "nat \<Rightarrow> string" where
  "showNat n = (if n < 10 then [digitChar n] else showNat (n div 10) @ [digitChar (n mod 10)])"
  by pat_completeness auto
termination
  by (relation "measure id") auto

declare showNat.simps [simp del]

definition showInt :: "int \<Rightarrow> string" where
  "showInt n = (if n < 0 then CHR ''-'' # showNat (nat (- n)) else showNat (nat n))"

text \<open>Go's \<^verbatim>\<open>%\<close> on integers truncates towards zero; the divisor 0 panics.\<close>

definition go_rem :: "int \<Rightarrow> int \<Rightarrow> error + int" where
  "go_rem a b = (if b = 0 then Inl Panic else Inr (sgn a * (\<bar>a\<bar> mod \<bar>b\<bar>)))"

section \<open>The gauge engine\<close>

text \<open>
  \<^verbatim>\<open>processGauges\<close> (lines 240-247) has no variable outside its loop body: for each
  datapoint it takes from its channel it builds one observation and sends it on
  \<^verbatim>\<open>diskAppendChannel\<close>. The model runs the loop over the datapoints the channel delivers
  and returns the sends. The function selects on no heartbeat channel, so a tick is not
  among its inputs.
\<close>

fun processGauges :: "('v \<Rightarrow> string) \<Rightarrow> 'v Datapoint list \<Rightarrow> chan_send list" where
  "processGauges fmtFloat [] = []"
| "processGauges fmtFloat (d # gauges) =
     (let observation =
        \<lparr>AggregateObservation.Name = ''gauges:'' @ Datapoint.Name d,
         Content = showInt (Datapoint.Timestamp d) @ '' '' @ fmtFloat (Value d) @ ''\<newline>'',
         Timestamp = 0\<rparr>
      in ToDisk observation # processGauges fmtFloat gauges)"

section \<open>Bucket wheels: the counter and timer engines\<close>

text \<open>
  \<^verbatim>\<open>processCounters\<close> (lines 254-302) and \<^verbatim>\<open>processTimers\<close> (lines 304-368) are the
  same loop over two accumulator types: a \<^verbatim>\<open>float64\<close> sum and a \<^verbatim>\<open>[]float64\<close> sample
  list. The model writes the loop once, for an accumulator type \<open>'a\<close>, and instantiates
  it twice.

  A Go \<^verbatim>\<open>map[string]T\<close> is an association list with distinct keys. Go leaves the
  order of \<^verbatim>\<open>range\<close> over a map open; the order of the list stands for the order one
  run of the loop happens to take.
\<close>

type_synonym 'a bucket = "(string \<times> 'a) list"

text \<open>\<^verbatim>\<open>m[k]\<close>: the zero value of the element type when the key is absent.\<close>

definition bucketLookup :: "'a \<Rightarrow> 'a bucket \<Rightarrow> string \<Rightarrow> 'a" where
  "bucketLookup z b k = (case map_of b k of None \<Rightarrow> z | Some a \<Rightarrow> a)"

text \<open>The three variables of an engine: \<^verbatim>\<open>currentSlots\<close>, \<^verbatim>\<open>maxSlots\<close> and the slice of
  wheels (\<^verbatim>\<open>counters\<close>, \<^verbatim>\<open>timers\<close>), one wheel per retention, one bucket map per slot.\<close>

record 'a engine_state =
  currentSlots :: "int list"
  maxSlots :: "int list"
  wheels :: "'a bucket list list"

definition heartbeatInterval :: int where
  "heartbeatInterval = 1"

text \<open>Lines 255-268 and 306-319. \<^verbatim>\<open>make\<close> panics on a negative length.\<close>

definition engineInit :: "int list \<Rightarrow> error + 'a engine_state" where
  "engineInit retentions =
     (if list_ex (\<lambda>interval. interval div heartbeatInterval < 0) retentions then Inl Panic
      else Inr \<lparr>currentSlots = map (\<lambda>interval. 0) retentions,
                maxSlots = map (\<lambda>interval. interval div heartbeatInterval) retentions,
                wheels = map (\<lambda>interval. replicate (nat (interval div heartbeatInterval)) [])
                           retentions\<rparr>)"

text \<open>The results of the iterations of a \<^verbatim>\<open>for i := range\<close> loop: the first panic ends
  the process.\<close>

fun collect :: "(error + 'a) list \<Rightarrow> error + 'a list" where
  "collect [] = Inr []"
| "collect (r # rs) =
     (case r of
        Inl e \<Rightarrow> Inl e
      | Inr a \<Rightarrow> (case collect rs of Inl e \<Rightarrow> Inl e | Inr as \<Rightarrow> Inr (a # as)))"

text \<open>
  One iteration of the datapoint loop (lines 275-276, 326-327) on the wheel of one
  retention: \<^verbatim>\<open>hashSlot := int64(mmh3.Hash32([]byte(d.Name))) % maxSlots[i]\<close>, then the
  accumulator of the name in that slot's map is replaced by \<open>upd\<close> of the old one
  (\<^verbatim>\<open>+= d.Value\<close> for a counter, \<^verbatim>\<open>append(..., d.Value)\<close> for a timer).
\<close>

definition wheelData ::
  "(string \<Rightarrow> 32 word) \<Rightarrow> ('a \<Rightarrow> 'a) \<Rightarrow> 'a \<Rightarrow> string \<Rightarrow> int \<Rightarrow> 'a bucket list \<Rightarrow>
   error + 'a bucket list" where
  "wheelData hash upd z name maxSlot wheel =
     (case go_rem (uint (hash name)) maxSlot of
        Inl e \<Rightarrow> Inl e
      | Inr hashSlot \<Rightarrow>
          if 0 \<le> hashSlot \<and> nat hashSlot < length wheel
          then Inr (wheel[nat hashSlot :=
                 AList.update name (upd (bucketLookup z (wheel ! nat hashSlot) name))
                   (wheel ! nat hashSlot)])
          else Inl Panic)"

definition engineData ::
  "(string \<Rightarrow> 32 word) \<Rightarrow> ('a \<Rightarrow> 'a) \<Rightarrow> 'a \<Rightarrow> int list \<Rightarrow> 'a engine_state \<Rightarrow> string \<Rightarrow>
   error + 'a engine_state" where
  "engineData hash upd z retentions st name =
     (case collect (map (\<lambda>i. if i < length (maxSlots st) \<and> i < length (wheels st)
                              then wheelData hash upd z name (maxSlots st ! i) (wheels st ! i)
                              else Inl Panic) [0..<length retentions]) of
        Inl e \<Rightarrow> Inl e
      | Inr ws \<Rightarrow> Inr (st\<lparr>wheels := ws @ drop (length retentions) (wheels st)\<rparr>))"

text \<open>
  The \<^verbatim>\<open>range\<close> loop over the current bucket (lines 282-293, 335-358): an entry whose
  accumulator passes the test (\<^verbatim>\<open>value > 0\<close>, \<^verbatim>\<open>len(value) > 0\<close>) is emitted and deleted
  from the map; any other entry is left in the map. The second argument is the entries the
  loop has still to visit, the third the map as it is now.
\<close>

fun flushLoop ::
  "('a \<Rightarrow> bool) \<Rightarrow> (string \<times> 'a) list \<Rightarrow> 'a bucket \<Rightarrow> (string \<times> 'a) list \<times> 'a bucket" where
  "flushLoop emits [] b = ([], b)"
| "flushLoop emits ((key, v) # rest) b =
     (if emits v
      then (let (flushed, b') = flushLoop emits rest (AList.delete key b)
            in ((key, v) # flushed, b'))
      else flushLoop emits rest b)"

text \<open>
  \<^verbatim>\<open>time.Now().Unix() - (time.Now().Unix() % shared.Config.Retentions[i].Interval)\<close>
  (lines 281, 333). The clock is read twice, left operand first; \<open>now\<close> is the pair of
  the two readings.
\<close>

definition alignedTimestamp :: "int \<times> int \<Rightarrow> int \<Rightarrow> error + int" where
  "alignedTimestamp now interval =
     (case go_rem (snd now) interval of Inl e \<Rightarrow> Inl e | Inr r \<Rightarrow> Inr (fst now - r))"

text \<open>
  One iteration of the heartbeat loop (lines 280-299, 330-364) on retention \<open>i\<close>: the
  entries flushed, each with the retention and the timestamp its observation is built
  from, the new slot pointer and the new wheel.
\<close>

definition wheelFlush ::
  "('a \<Rightarrow> bool) \<Rightarrow> nat \<Rightarrow> int \<times> int \<Rightarrow> int \<Rightarrow> int \<Rightarrow> int \<Rightarrow> 'a bucket list \<Rightarrow>
   error + ((nat \<times> int \<times> string \<times> 'a) list \<times> int \<times> 'a bucket list)" where
  "wheelFlush emits i now interval currentSlot maxSlot wheel =
     (case alignedTimestamp now interval of
        Inl e \<Rightarrow> Inl e
      | Inr timestamp \<Rightarrow>
          if 0 \<le> currentSlot \<and> nat currentSlot < length wheel
          then (let (flushed, b') =
                      flushLoop emits (wheel ! nat currentSlot) (wheel ! nat currentSlot)
                in Inr (map (\<lambda>(key, v). (i, timestamp, key, v)) flushed,
                        (if currentSlot + 1 = maxSlot then 0 else currentSlot + 1),
                        wheel[nat currentSlot := b']))
          else Inl Panic)"

definition engineHeartbeat ::
  "('a \<Rightarrow> bool) \<Rightarrow> int list \<Rightarrow> 'a engine_state \<Rightarrow> (nat \<Rightarrow> int \<times> int) \<Rightarrow>
   error + ('a engine_state \<times> (nat \<times> int \<times> string \<times> 'a) list)" where
  "engineHeartbeat emits retentions st clock =
     (case collect (map (\<lambda>i. if i < length retentions \<and> i < length (maxSlots st) \<and>
                                 i < length (wheels st)
                              then wheelFlush emits i (clock i) (retentions ! i)
                                     (currentSlots st ! i) (maxSlots st ! i) (wheels st ! i)
                              else Inl Panic) [0..<length (currentSlots st)]) of
        Inl e \<Rightarrow> Inl e
      | Inr rs \<Rightarrow>
          Inr (st\<lparr>currentSlots := map (\<lambda>(flushed, c, w). c) rs,
                  wheels := map (\<lambda>(flushed, c, w). w) rs @
                            drop (length (currentSlots st)) (wheels st)\<rparr>,
               concat (map (\<lambda>(flushed, c, w). flushed) rs)))"

text \<open>
  What the \<^verbatim>\<open>select\<close> of an engine receives: a datapoint from its channel, or a tick
  from its heartbeat channel. A tick carries the clock readings the iteration for
  retention \<open>i\<close> will make.
\<close>

datatype 'v event = Recv "'v Datapoint" | Heartbeat "nat \<Rightarrow> int \<times> int"

definition engineStep ::
  "(string \<Rightarrow> 32 word) \<Rightarrow> ('v \<Rightarrow> 'a \<Rightarrow> 'a) \<Rightarrow> 'a \<Rightarrow> ('a \<Rightarrow> bool) \<Rightarrow> int list \<Rightarrow>
   'a engine_state \<Rightarrow> 'v event \<Rightarrow> error + ('a engine_state \<times> (nat \<times> int \<times> string \<times> 'a) list)" where
  "engineStep hash acc z emits retentions st ev =
     (case ev of
        Recv d \<Rightarrow>
          (case engineData hash (acc (Value d)) z retentions st (Datapoint.Name d) of
             Inl e \<Rightarrow> Inl e
           | Inr st' \<Rightarrow> Inr (st', []))
      | Heartbeat clock \<Rightarrow> engineHeartbeat emits retentions st clock)"

text \<open>The \<^verbatim>\<open>for { select { ... } }\<close> loop over the events the engine receives, one after
  the other; it returns the state it has reached and everything it has flushed.\<close>

fun engineLoop ::
  "('s \<Rightarrow> 'e \<Rightarrow> error + ('s \<times> 'o list)) \<Rightarrow> 's \<Rightarrow> 'e list \<Rightarrow> error + ('s \<times> 'o list)" where
  "engineLoop step st [] = Inr (st, [])"
| "engineLoop step st (ev # evs) =
     (case step st ev of
        Inl e \<Rightarrow> Inl e
      | Inr (st', out) \<Rightarrow>
          (case engineLoop step st' evs of
             Inl e \<Rightarrow> Inl e
           | Inr (st'', out') \<Rightarrow> Inr (st'', out @ out')))"

definition engineRun ::
  "(string \<Rightarrow> 32 word) \<Rightarrow> ('v \<Rightarrow> 'a \<Rightarrow> 'a) \<Rightarrow> 'a \<Rightarrow> ('a \<Rightarrow> bool) \<Rightarrow> int list \<Rightarrow> 'v event list \<Rightarrow>
   error + ('a engine_state \<times> (nat \<times> int \<times> string \<times> 'a) list)" where
  "engineRun hash acc z emits retentions events =
     (case engineInit retentions of
        Inl e \<Rightarrow> Inl e
      | Inr st \<Rightarrow> engineLoop (engineStep hash acc z emits retentions) st events)"

subsection \<open>The counter engine\<close>

text \<open>Lines 284-290: the observation of a flushed counter entry.\<close>

definition counterObservation ::
  "('v \<Rightarrow> string) \<Rightarrow> int list \<Rightarrow> nat \<times> int \<times> string \<times> 'v \<Rightarrow> chan_send" where
  "counterObservation fmtFloat retentions = (\<lambda>(i, timestamp, key, v).
     if i = 0
     then ToRedis \<lparr>AggregateObservation.Name = ''counters:'' @ key,
                   Content = showInt timestamp @ ''<X>'' @ fmtFloat v,
                   Timestamp = timestamp\<rparr>
     else ToDisk \<lparr>AggregateObservation.Name =
                    ''counters:'' @ key @ '':'' @ showInt (retentions ! i),
                  Content = showInt timestamp @ '' '' @ fmtFloat v @ ''\<newline>'',
                  Timestamp = timestamp\<rparr>)"

definition counterAcc :: "'v::plus \<Rightarrow> 'v \<Rightarrow> 'v" where
  "counterAcc d old = old + d"

definition counterEmits :: "'v::{zero,ord} \<Rightarrow> bool" where
  "counterEmits v = (0 < v)"

definition processCounters_step ::
  "(string \<Rightarrow> 32 word) \<Rightarrow> ('v \<Rightarrow> string) \<Rightarrow> int list \<Rightarrow> 'v engine_state \<Rightarrow>
   ('v::{zero,plus,ord}) event \<Rightarrow> error + ('v engine_state \<times> chan_send list)" where
  "processCounters_step hash fmtFloat retentions st ev =
     (case engineStep hash counterAcc 0 counterEmits retentions st ev of
        Inl e \<Rightarrow> Inl e
      | Inr (st', flushed) \<Rightarrow> Inr (st', map (counterObservation fmtFloat retentions) flushed))"

definition processCounters ::
  "(string \<Rightarrow> 32 word) \<Rightarrow> ('v \<Rightarrow> string) \<Rightarrow> int list \<Rightarrow> ('v::{zero,plus,ord}) event list \<Rightarrow>
   error + ('v engine_state \<times> chan_send list)" where
  "processCounters hash fmtFloat retentions events =
     (case engineInit retentions of
        Inl e \<Rightarrow> Inl e
      | Inr st \<Rightarrow> engineLoop (processCounters_step hash fmtFloat retentions) st events)"

subsection \<open>The timer engine\<close>

text \<open>
  The statistics of package \<^verbatim>\<open>shared\<close>, which lines 338-345 call, are not among the
  source files: the engine takes them as a parameter. The percentile's second argument
  is the literal of the call (0.9, 0.95, 0.99).
\<close>

record 'v shared_stats =
  Min_of :: "'v list \<Rightarrow> 'v"
  Max_of :: "'v list \<Rightarrow> 'v"
  Median :: "'v list \<Rightarrow> 'v"
  Mean :: "'v list \<Rightarrow> 'v"
  Stddev :: "'v list \<Rightarrow> 'v"
  Percentile :: "'v list \<Rightarrow> real \<Rightarrow> 'v"

text \<open>Lines 337-347: \<^verbatim>\<open>%v\<close> of the count, an \<^verbatim>\<open>int\<close>, and of eight \<^verbatim>\<open>float64\<close>s.\<close>

definition timerAggregates :: "('v \<Rightarrow> string) \<Rightarrow> 'v shared_stats \<Rightarrow> 'v list \<Rightarrow> string" where
  "timerAggregates fmtFloat shared vs =
     (let count = int (length vs);
          min = Min_of shared vs;
          max = Max_of shared vs;
          median = Median shared vs;
          mean = Mean shared vs;
          stddev = Stddev shared vs;
          percentile_90 = Percentile shared vs 0.9;
          percentile_95 = Percentile shared vs 0.95;
          percentile_99 = Percentile shared vs 0.99
      in showInt count @ ''/'' @ fmtFloat min @ ''/'' @ fmtFloat max @ ''/'' @
         fmtFloat median @ ''/'' @ fmtFloat mean @ ''/'' @ fmtFloat stddev @ ''/'' @
         fmtFloat percentile_90 @ ''/'' @ fmtFloat percentile_95 @ ''/'' @
         fmtFloat percentile_99)"

text \<open>Lines 348-354: the observation of a flushed timer entry.\<close>

definition timerObservation ::
  "('v \<Rightarrow> string) \<Rightarrow> 'v shared_stats \<Rightarrow> int list \<Rightarrow> nat \<times> int \<times> string \<times> 'v list \<Rightarrow>
   chan_send" where
  "timerObservation fmtFloat shared retentions = (\<lambda>(i, timestamp, key, vs).
     let aggregates = timerAggregates fmtFloat shared vs
     in if i = 0
        then ToRedis \<lparr>AggregateObservation.Name = ''timers:'' @ key,
                      Content = showInt timestamp @ ''<X>'' @ aggregates,
                      Timestamp = timestamp\<rparr>
        else ToDisk \<lparr>AggregateObservation.Name =
                       ''timers:'' @ key @ '':'' @ showInt (retentions ! i),
                     Content = showInt timestamp @ '' '' @ aggregates @ ''\<newline>'',
                     Timestamp = timestamp\<rparr>)"

definition timerAcc :: "'v \<Rightarrow> 'v list \<Rightarrow> 'v list" where
  "timerAcc d old = old @ [d]"

definition timerEmits :: "'v list \<Rightarrow> bool" where
  "timerEmits vs = (length vs > 0)"

definition processTimers_step ::
  "(string \<Rightarrow> 32 word) \<Rightarrow> ('v \<Rightarrow> string) \<Rightarrow> 'v shared_stats \<Rightarrow> int list \<Rightarrow>
   'v list engine_state \<Rightarrow> 'v event \<Rightarrow> error + ('v list engine_state \<times> chan_send list)" where
  "processTimers_step hash fmtFloat shared retentions st ev =
     (case engineStep hash timerAcc [] timerEmits retentions st ev of
        Inl e \<Rightarrow> Inl e
      | Inr (st', flushed) \<Rightarrow>
          Inr (st', map (timerObservation fmtFloat shared retentions) flushed))"

definition processTimers ::
  "(string \<Rightarrow> 32 word) \<Rightarrow> ('v \<Rightarrow> string) \<Rightarrow> 'v shared_stats \<Rightarrow> int list \<Rightarrow> 'v event list \<Rightarrow>
   error + ('v list engine_state \<times> chan_send list)" where
  "processTimers hash fmtFloat shared retentions events =
     (case engineInit retentions of
        Inl e \<Rightarrow> Inl e
      | Inr st \<Rightarrow> engineLoop (processTimers_step hash fmtFloat shared retentions) st events)"

subsection \<open>Notions the theorems are stated with\<close>

text \<open>The slot a name is stored in: \<^verbatim>\<open>int64(mmh3.Hash32([]byte(name))) % maxSlots[i]\<close> for a positive
  number of slots.\<close>

definition slotOf :: "(string \<Rightarrow> 32 word) \<Rightarrow> string \<Rightarrow> int \<Rightarrow> nat" where
  "slotOf hash name interval = nat (uint (hash name) mod interval)"

text \<open>The invariant of an engine over retentions that are all positive: the three slices
  have one entry per retention, every slot pointer is inside its wheel, a wheel has as
  many bucket maps as its interval has seconds, the keys of a map are distinct, every
  key is stored in the slot its hash selects, and every stored accumulator satisfies \<open>P\<close>.\<close>

definition engine_inv ::
  "(string \<Rightarrow> 32 word) \<Rightarrow> ('a \<Rightarrow> bool) \<Rightarrow> int list \<Rightarrow> 'a engine_state \<Rightarrow> bool" where
  "engine_inv hash P retentions st \<longleftrightarrow>
     length (currentSlots st) = length retentions \<and>
     maxSlots st = retentions \<and>
     length (wheels st) = length retentions \<and>
     (\<forall>i < length retentions.
        0 \<le> currentSlots st ! i \<and> currentSlots st ! i < retentions ! i \<and>
        length (wheels st ! i) = nat (retentions ! i) \<and>
        (\<forall>s < nat (retentions ! i).
           distinct (map fst (wheels st ! i ! s)) \<and>
           (\<forall>(key, v) \<in> set (wheels st ! i ! s).
              slotOf hash key (retentions ! i) = s \<and> P v)))"

text \<open>What one datapoint does to the wheel of one retention when nothing panics.\<close>

definition putWheel ::
  "(string \<Rightarrow> 32 word) \<Rightarrow> ('a \<Rightarrow> 'a) \<Rightarrow> 'a \<Rightarrow> string \<Rightarrow> int \<Rightarrow> 'a bucket list \<Rightarrow> 'a bucket list" where
  "putWheel hash upd z name interval wheel =
     wheel[slotOf hash name interval :=
       AList.update name (upd (bucketLookup z (wheel ! slotOf hash name interval) name))
         (wheel ! slotOf hash name interval)]"

text \<open>The timestamp of a heartbeat iteration when the interval is not 0.\<close>

definition stampOf :: "int \<times> int \<Rightarrow> int \<Rightarrow> int" where
  "stampOf now interval = fst now - sgn (snd now) * (\<bar>snd now\<bar> mod \<bar>interval\<bar>)"

text \<open>Lines 295-298 and 360-363.\<close>

definition nextSlot :: "int \<Rightarrow> int \<Rightarrow> int" where
  "nextSlot currentSlot maxSlot = (if currentSlot + 1 = maxSlot then 0 else currentSlot + 1)"

text \<open>The bucket map the heartbeat iteration of retention \<open>i\<close> ranges over:
  \<^verbatim>\<open>counters[i][currentSlots[i]]\<close>.\<close>

definition currentBucket :: "'a engine_state \<Rightarrow> nat \<Rightarrow> 'a bucket" where
  "currentBucket st i = wheels st ! i ! nat (currentSlots st ! i)"

text \<open>The entries one heartbeat flushes for retention \<open>i\<close>, and the state it leaves, when
  nothing panics.\<close>

definition tickFlushed ::
  "('a \<Rightarrow> bool) \<Rightarrow> int list \<Rightarrow> 'a engine_state \<Rightarrow> (nat \<Rightarrow> int \<times> int) \<Rightarrow> nat \<Rightarrow>
   (nat \<times> int \<times> string \<times> 'a) list" where
  "tickFlushed emits retentions st clock i =
     map (\<lambda>(key, v). (i, stampOf (clock i) (retentions ! i), key, v))
       (filter (\<lambda>(key, v). emits v) (currentBucket st i))"

definition tickState :: "('a \<Rightarrow> bool) \<Rightarrow> int list \<Rightarrow> 'a engine_state \<Rightarrow> 'a engine_state" where
  "tickState emits retentions st =
     st\<lparr>currentSlots := map (\<lambda>i. nextSlot (currentSlots st ! i) (retentions ! i))
                           [0..<length retentions],
        wheels := map (\<lambda>i. (wheels st ! i)[nat (currentSlots st ! i) :=
                               filter (\<lambda>(key, v). \<not> emits v) (currentBucket st i)])
                    [0..<length retentions]\<rparr>"

text \<open>The state one datapoint leaves when nothing panics.\<close>

definition dataState ::
  "(string \<Rightarrow> 32 word) \<Rightarrow> ('a \<Rightarrow> 'a) \<Rightarrow> 'a \<Rightarrow> int list \<Rightarrow> 'a engine_state \<Rightarrow> string \<Rightarrow>
   'a engine_state" where
  "dataState hash upd z retentions st name =
     st\<lparr>wheels := map (\<lambda>i. putWheel hash upd z name (retentions ! i) (wheels st ! i))
                    [0..<length retentions]\<rparr>"

text \<open>The state the engine starts in when no interval is negative.\<close>

definition initState :: "int list \<Rightarrow> 'a engine_state" where
  "initState retentions =
     \<lparr>currentSlots = map (\<lambda>interval. 0) retentions,
      maxSlots = retentions,
      wheels = map (\<lambda>interval. replicate (nat interval) []) retentions\<rparr>"

text \<open>The number of heartbeat ticks among the events an engine has received.\<close>

definition ticks :: "'v event list \<Rightarrow> nat" where
  "ticks events = length (filter (\<lambda>ev. case ev of Heartbeat clock \<Rightarrow> True | Recv d \<Rightarrow> False) events)"

section \<open>The dispatcher-fed engine loop\<close>

text \<open>
  \<^verbatim>\<open>processDatatype\<close> of \<^verbatim>\<open>src/receiver.go\<close> (lines 57-73). A \<^verbatim>\<open>gobatsd.Metric\<close> is an
  object behind an interface; the model numbers the objects in the order
  \<^verbatim>\<open>metricCreator\<close> makes them and records the calls the loop makes: the creation of
  object \<open>m\<close> for a name, \<^verbatim>\<open>m.Start()\<close> and \<^verbatim>\<open>m.Update(v)\<close>. The first argument of the
  loop is the map \<^verbatim>\<open>metrics\<close>, the second the number of objects made so far.
\<close>

datatype 'v metric_call = Creator nat string | Start nat | Update nat 'v

fun processDatatype_loop ::
  "(string \<rightharpoonup> nat) \<Rightarrow> nat \<Rightarrow> 'v Datapoint list \<Rightarrow> 'v metric_call list" where
  "processDatatype_loop metrics n [] = []"
| "processDatatype_loop metrics n (d # ch) =
     (case metrics (Datapoint.Name d) of
        Some m \<Rightarrow> Update m (Value d) # processDatatype_loop metrics n ch
      | None \<Rightarrow>
          Creator n (Datapoint.Name d) # Start n # Update n (Value d) #
          processDatatype_loop (metrics(Datapoint.Name d \<mapsto> n)) (Suc n) ch)"

definition processDatatype :: "'v Datapoint list \<Rightarrow> 'v metric_call list" where
  "processDatatype ch = processDatatype_loop Map.empty 0 ch"

text \<open>Readings of a list of calls: the objects made for a name, the names an object was
  made for, the number of \<^verbatim>\<open>Start\<close> calls on an object and the values it was updated
  with; and the values of the datapoints of a name.\<close>

definition created_for :: "'v metric_call list \<Rightarrow> string \<Rightarrow> nat list" where
  "created_for cs nm =
     concat (map (\<lambda>c. case c of Creator m nm' \<Rightarrow> (if nm' = nm then [m] else []) | _ \<Rightarrow> []) cs)"

definition names_of :: "'v metric_call list \<Rightarrow> nat \<Rightarrow> string list" where
  "names_of cs m =
     concat (map (\<lambda>c. case c of Creator m' nm \<Rightarrow> (if m' = m then [nm] else []) | _ \<Rightarrow> []) cs)"

definition starts_of :: "'v metric_call list \<Rightarrow> nat \<Rightarrow> nat" where
  "starts_of cs m = length (filter (\<lambda>c. c = Start m) cs)"

definition updates_of :: "'v metric_call list \<Rightarrow> nat \<Rightarrow> 'v list" where
  "updates_of cs m =
     concat (map (\<lambda>c. case c of Update m' v \<Rightarrow> (if m' = m then [v] else []) | _ \<Rightarrow> []) cs)"

definition values_for :: "'v Datapoint list \<Rightarrow> string \<Rightarrow> 'v list" where
  "values_for ch nm = map Value (filter (\<lambda>d. Datapoint.Name d = nm) ch)"

text \<open>
  What a slot pointer does: \<open>cur\<close> is its value after \<open>n\<close> heartbeats and \<open>cur'\<close> its value
  \<open>k\<close> heartbeats later, in a wheel of \<open>slots\<close> slots. It is inside the wheel; one
  heartbeat moves it by one, back to 0 after the last slot; it is back at \<open>cur\<close> after
  \<open>slots\<close> heartbeats and at a different slot after fewer.
\<close>

definition slotCycle :: "int \<Rightarrow> int \<Rightarrow> int \<Rightarrow> nat \<Rightarrow> nat \<Rightarrow> bool" where
  "slotCycle slots cur cur' n k \<longleftrightarrow>
     0 \<le> cur \<and> cur < slots \<and>
     cur = int n mod slots \<and>
     cur' = (cur + int k) mod slots \<and>
     (k = 1 \<longrightarrow> cur' = (if cur + 1 = slots then 0 else cur + 1)) \<and>
     (int k = slots \<longrightarrow> cur' = cur) \<and>
     (0 < k \<and> int k < slots \<longrightarrow> cur' \<noteq> cur)"

text \<open>For closed examples: a hash that sends every name to \<open>h\<close>, and a clock whose
  readings during a tick are all \<open>t\<close>.\<close>

definition hashTo :: "32 word \<Rightarrow> string \<Rightarrow> 32 word" where
  "hashTo h name = h"

definition clockAt :: "int \<Rightarrow> nat \<Rightarrow> int \<times> int" where
  "clockAt t i = (t, t)"

text \<open>
  Modelled from the spec: the statistics of package \<^verbatim>\<open>shared\<close> (\<^verbatim>\<open>Min\<close>, \<^verbatim>\<open>Max\<close>, \<^verbatim>\<open>Median\<close>,
  \<^verbatim>\<open>Mean\<close>, \<^verbatim>\<open>Stddev\<close>, \<^verbatim>\<open>Percentile\<close>), whose source is not among the files. Section 4.6
  of the spec defines them: the median is the middle element of the sorted samples for
  an odd count and the arithmetic mean of the two middle elements for an even one; the
  standard deviation is that of the population; the percentile is the element of the
  sorted samples at the 0-based index \<open>ceil(p * n) - 1\<close>, clamped to \<open>[0, n - 1]\<close>. They are
  written over the reals, as the spec's formulas are.
\<close>

definition spec_percentile_index :: "nat \<Rightarrow> real \<Rightarrow> nat" where
  "spec_percentile_index n p = nat (max 0 (min (int n - 1) (\<lceil>p * real n\<rceil> - 1)))"

definition spec_stats :: "real shared_stats" where
  "spec_stats =
     \<lparr>Min_of = (\<lambda>S. Min (set S)),
      Max_of = (\<lambda>S. Max (set S)),
      Median = (\<lambda>S. if odd (length S) then sort S ! (length S div 2)
                     else (sort S ! (length S div 2 - 1) + sort S ! (length S div 2)) / 2),
      Mean = (\<lambda>S. sum_list S / real (length S)),
      Stddev = (\<lambda>S. sqrt (sum_list (map (\<lambda>x. (x - sum_list S / real (length S))\<^sup>2) S) /
                           real (length S))),
      Percentile = (\<lambda>S p. sort S ! spec_percentile_index (length S) p)\<rparr>"

text \<open>For closed examples: what \<^verbatim>\<open>%v\<close> prints for a \<^verbatim>\<open>float64\<close> that is a whole number
  of magnitude below 1000000 (from there on \<^verbatim>\<open>%v\<close> prints an exponent).\<close>

definition showWhole :: "real \<Rightarrow> string" where
  "showWhole v = showInt \<lfloor>v\<rfloor>"

section \<open>The float64 of the counter sums\<close>

text \<open>
  Where a theorem depends on what \<^verbatim>\<open>+=\<close> does to a counter sum (line 276), the type \<open>'v\<close>
  is this model of Go's \<^verbatim>\<open>float64\<close>, an IEEE 754 binary64. \<open>Finite m e\<close> is the number
  \<open>m * 2^e\<close>; the numbers of the format are those that can be written with
  \<open>\<bar>m\<bar> < 2^53\<close> and \<open>e \<ge> -1074\<close> and are of magnitude below \<open>2^1024\<close>, and the operations
  return them with an odd \<open>m\<close>, or as \<open>Finite 0 0\<close>. The sign of a zero is not modelled:
  no sum and no comparison of the source depends on it.
\<close>

datatype float64 = Finite int int | PosInf | NegInf | NaN

text \<open>The number of binary digits of a positive integer.\<close>

function bitlen :: "int \<Rightarrow> int" where
  "bitlen n = (if n \<le> 0 then 0 else 1 + bitlen (n div 2))"
  by pat_completeness auto
termination
  by (relation "measure nat") auto

declare bitlen.simps [simp del]

text \<open>The number \<open>m * 2^e\<close> written with an odd \<open>m\<close>; zero as \<open>0 * 2^0\<close>.\<close>

function normalize64 :: "int \<Rightarrow> int \<Rightarrow> int \<times> int" where
  "normalize64 m e =
     (if m = 0 then (0, 0)
      else if even m then normalize64 (m div 2) (e + 1)
      else (m, e))"
  by pat_completeness auto
termination
  by (relation "measure (\<lambda>(m, e). nat \<bar>m\<bar>)") auto

declare normalize64.simps [simp del]

text \<open>The float64 of a number \<open>m * 2^e\<close> that needs no rounding: an infinity when its
  magnitude is \<open>2^1024\<close> or more, and otherwise the number, written with an odd \<open>m\<close>.\<close>

definition finite64 :: "int \<Rightarrow> int \<Rightarrow> float64" where
  "finite64 m e =
     (if m = 0 then Finite 0 0
      else if 1024 < bitlen \<bar>m\<bar> + e then (if 0 < m then PosInf else NegInf)
      else (case normalize64 m e of (m', e') \<Rightarrow> Finite m' e'))"

text \<open>
  Rounding of the exact number \<open>m * 2^e\<close> to the nearest float64, a tie to the one with
  the even significand: the \<open>d\<close> low binary digits that do not fit in 53 digits, or lie
  below \<open>2^-1074\<close>, are cut off, and the rest is increased by one when what was cut off is
  more than half a unit of the last digit kept, or is half a unit and the rest is odd.
\<close>

definition roundFloat64 :: "int \<Rightarrow> int \<Rightarrow> float64" where
  "roundFloat64 m e =
     (let d = max (bitlen \<bar>m\<bar> - 53) (- 1074 - e)
      in if d \<le> 0 then finite64 m e
         else (let q = \<bar>m\<bar> div 2 ^ nat d;
                   r = \<bar>m\<bar> mod 2 ^ nat d;
                   half = 2 ^ (nat d - 1);
                   q' = (if half < r \<or> (r = half \<and> odd q) then q + 1 else q)
               in finite64 (sgn m * q') (e + d)))"

text \<open>\<^verbatim>\<open>0\<close>, \<^verbatim>\<open>x + y\<close> and \<^verbatim>\<open>x < y\<close> on \<^verbatim>\<open>float64\<close>: the sum of two numbers is their exact sum,
  rounded; a NaN compares false with everything.\<close>

instantiation float64 :: "{zero, plus, ord}"
begin

definition zero_float64 :: float64 where
  "zero_float64 = Finite 0 0"

definition plus_float64 :: "float64 \<Rightarrow> float64 \<Rightarrow> float64" where
  "plus_float64 x y =
     (case (x, y) of
        (Finite m1 e1, Finite m2 e2) \<Rightarrow>
          (let e = min e1 e2
           in roundFloat64 (m1 * 2 ^ nat (e1 - e) + m2 * 2 ^ nat (e2 - e)) e)
      | (Finite m1 e1, PosInf) \<Rightarrow> PosInf
      | (Finite m1 e1, NegInf) \<Rightarrow> NegInf
      | (PosInf, Finite m2 e2) \<Rightarrow> PosInf
      | (PosInf, PosInf) \<Rightarrow> PosInf
      | (NegInf, Finite m2 e2) \<Rightarrow> NegInf
      | (NegInf, NegInf) \<Rightarrow> NegInf
      | _ \<Rightarrow> NaN)"

definition less_float64 :: "float64 \<Rightarrow> float64 \<Rightarrow> bool" where
  "less_float64 x y =
     (case (x, y) of
        (Finite m1 e1, Finite m2 e2) \<Rightarrow>
          (let e = min e1 e2 in m1 * 2 ^ nat (e1 - e) < m2 * 2 ^ nat (e2 - e))
      | (Finite m1 e1, PosInf) \<Rightarrow> True
      | (NegInf, Finite m2 e2) \<Rightarrow> True
      | (NegInf, PosInf) \<Rightarrow> True
      | _ \<Rightarrow> False)"

definition less_eq_float64 :: "float64 \<Rightarrow> float64 \<Rightarrow> bool" where
  "less_eq_float64 x y =
     (case (x, y) of
        (Finite m1 e1, Finite m2 e2) \<Rightarrow>
          (let e = min e1 e2 in m1 * 2 ^ nat (e1 - e) \<le> m2 * 2 ^ nat (e2 - e))
      | (Finite m1 e1, PosInf) \<Rightarrow> True
      | (PosInf, PosInf) \<Rightarrow> True
      | (NegInf, Finite m2 e2) \<Rightarrow> True
      | (NegInf, PosInf) \<Rightarrow> True
      | (NegInf, NegInf) \<Rightarrow> True
      | _ \<Rightarrow> False)"

instance ..

end

text \<open>The conversion \<^verbatim>\<open>float64(n)\<close> of a whole number, and the rational number a finite
  \<^verbatim>\<open>float64\<close> is.\<close>

definition ofInt :: "int \<Rightarrow> float64" where
  "ofInt n = roundFloat64 n 0"

definition isFinite :: "float64 \<Rightarrow> bool" where
  "isFinite x = (case x of Finite m e \<Rightarrow> True | _ \<Rightarrow> False)"

definition valueOf :: "float64 \<Rightarrow> rat" where
  "valueOf x = (case x of
                  Finite m e \<Rightarrow> (if 0 \<le> e then of_int m * 2 ^ nat e
                                  else of_int m / 2 ^ nat (- e))
                | _ \<Rightarrow> 0)"

definition valueSum :: "float64 list \<Rightarrow> rat" where
  "valueSum vs = sum_list (map valueOf vs)"

text \<open>A non-negative whole number: \<open>m * 2^e\<close> with neither \<open>m\<close> nor \<open>e\<close> negative.\<close>

definition wholeNonneg :: "float64 \<Rightarrow> bool" where
  "wholeNonneg x = (case x of Finite m e \<Rightarrow> 0 \<le> m \<and> 0 \<le> e | _ \<Rightarrow> False)"

text \<open>An addition that rounds nothing off: the operands and the sum are numbers, and the
  sum is the exact one.\<close>

definition exactAdd :: "float64 \<Rightarrow> float64 \<Rightarrow> bool" where
  "exactAdd x y \<longleftrightarrow>
     isFinite x \<and> isFinite y \<and> isFinite (x + y) \<and> valueOf (x + y) = valueOf x + valueOf y"

text \<open>
  For the conservation of counter sums: the sum a retention holds for a name (the
  accumulator \<^verbatim>\<open>counters[i][hashSlot][name]\<close> in the one slot the name hashes to, 0 when the
  map has no such key), the values the engine receives for a name, and the values it
  flushes for a retention and a name.
\<close>

definition held ::
  "(string \<Rightarrow> 32 word) \<Rightarrow> int list \<Rightarrow> 'v engine_state \<Rightarrow> nat \<Rightarrow> string \<Rightarrow> 'v::zero" where
  "held hash retentions st i name =
     bucketLookup 0 (wheels st ! i ! slotOf hash name (retentions ! i)) name"

definition receivedValues :: "string \<Rightarrow> 'v event list \<Rightarrow> 'v list" where
  "receivedValues name events =
     concat (map (\<lambda>ev. case ev of
                          Recv d \<Rightarrow> (if Datapoint.Name d = name then [Value d] else [])
                        | Heartbeat clock \<Rightarrow> []) events)"

definition emittedValues :: "nat \<Rightarrow> string \<Rightarrow> (nat \<times> int \<times> string \<times> 'v) list \<Rightarrow> 'v list" where
  "emittedValues i name flushed =
     map (\<lambda>(i', timestamp, key, v). v)
       (filter (\<lambda>(i', timestamp, key, v). i' = i \<and> key = name) flushed)"

text \<open>
  Every \<^verbatim>\<open>+=\<close> of line 276 that the counter engine executes on the events, from the state
  \<open>st\<close> on, rounds nothing off: for a datapoint, in every retention, the sum held for its
  name and its value add exactly.
\<close>

fun exactFrom ::
  "(string \<Rightarrow> 32 word) \<Rightarrow> int list \<Rightarrow> float64 engine_state \<Rightarrow> float64 event list \<Rightarrow> bool" where
  "exactFrom hash retentions st [] = True"
| "exactFrom hash retentions st (ev # events) =
     ((case ev of
         Recv d \<Rightarrow>
           list_all (\<lambda>i. exactAdd (held hash retentions st i (Datapoint.Name d)) (Value d))
             [0..<length retentions]
       | Heartbeat clock \<Rightarrow> True) \<and>
      (case engineStep hash counterAcc 0 counterEmits retentions st ev of
         Inl e \<Rightarrow> True
       | Inr (st', flushed) \<Rightarrow> exactFrom hash retentions st' events))"

definition addsExactly ::
  "(string \<Rightarrow> 32 word) \<Rightarrow> int list \<Rightarrow> float64 event list \<Rightarrow> bool" where
  "addsExactly hash retentions events =
     (case engineInit retentions of
        Inl e \<Rightarrow> True
      | Inr st \<Rightarrow> exactFrom hash retentions st events)"

text \<open>For closed examples: what \<^verbatim>\<open>%v\<close> prints for a \<^verbatim>\<open>float64\<close> that is a whole number of
  magnitude below 1000000.\<close>

definition showWhole64 :: "float64 \<Rightarrow> string" where
  "showWhole64 v = showInt \<lfloor>valueOf v\<rfloor>"

section \<open>The line parser and the dispatcher\<close>

text \<open>
  \<^verbatim>\<open>parseDatapoint\<close> (lines 153-165) searches the line for the regular expression
  \<^verbatim>\<open>(.*):([0-9|\.]+)\|(c|g|ms)\<close> with \<^verbatim>\<open>FindAllStringSubmatch\<close> and reads the first match.
  Go's \<^verbatim>\<open>regexp\<close> returns the match that begins leftmost and, among those, the one a
  backtracking search finds first: the greedy \<^verbatim>\<open>.*\<close> and \<^verbatim>\<open>+\<close> try the longest text first
  and then give back one character at a time, an alternation tries its branches from the
  left, and \<^verbatim>\<open>.\<close> matches any character but a newline. The model is that search. The
  character class of the value is a parameter, so that the search can also be run with
  the class the spec writes.
\<close>

text \<open>The class \<^verbatim>\<open>[0-9|\.]\<close> of the source: inside the brackets the bar is a character.\<close>

definition valueChar :: "char \<Rightarrow> bool" where
  "valueChar c = (c \<in> set ''0123456789|.'')"

text \<open>The class \<^verbatim>\<open>[0-9.]\<close> of the spec's grammar.\<close>

definition specValueChar :: "char \<Rightarrow> bool" where
  "specValueChar c = (c \<in> set ''0123456789.'')"

text \<open>\<^verbatim>\<open>(c|g|ms)\<close> at the start of the text.\<close>

definition matchType :: "string \<Rightarrow> string option" where
  "matchType s =
     (if take 1 s = ''c'' then Some ''c''
      else if take 1 s = ''g'' then Some ''g''
      else if take 2 s = ''ms'' then Some ''ms''
      else None)"

text \<open>\<^verbatim>\<open>([0-9|\.]+)\|(c|g|ms)\<close> at the start of the text, with a value of \<open>n\<close> characters,
  then of fewer, down to one.\<close>

fun matchValue :: "nat \<Rightarrow> string \<Rightarrow> (string \<times> string) option" where
  "matchValue 0 s = None"
| "matchValue (Suc n) s =
     (case (if take 1 (drop (Suc n) s) = ''|'' then matchType (drop (Suc (Suc n)) s) else None) of
        Some t \<Rightarrow> Some (take (Suc n) s, t)
      | None \<Rightarrow> matchValue n s)"

definition matchAfterColon :: "(char \<Rightarrow> bool) \<Rightarrow> string \<Rightarrow> (string \<times> string) option" where
  "matchAfterColon vc s = matchValue (length (takeWhile vc s)) s"

text \<open>The whole expression at the start of the text, with a name of \<open>k\<close> characters, then
  of fewer, down to none.\<close>

fun matchName :: "(char \<Rightarrow> bool) \<Rightarrow> nat \<Rightarrow> string \<Rightarrow> (string \<times> string \<times> string) option" where
  "matchName vc 0 s =
     (case (if take 1 s = '':'' then matchAfterColon vc (drop 1 s) else None) of
        Some (v, t) \<Rightarrow> Some ([], v, t)
      | None \<Rightarrow> None)"
| "matchName vc (Suc k) s =
     (case (if take 1 (drop (Suc k) s) = '':'' then matchAfterColon vc (drop (Suc (Suc k)) s)
            else None) of
        Some (v, t) \<Rightarrow> Some (take (Suc k) s, v, t)
      | None \<Rightarrow> matchName vc k s)"

definition matchAt :: "(char \<Rightarrow> bool) \<Rightarrow> string \<Rightarrow> (string \<times> string \<times> string) option" where
  "matchAt vc s = matchName vc (length (takeWhile (\<lambda>c. c \<noteq> CHR 0x0A) s)) s"

text \<open>The leftmost match: the three submatches (name, value text, type letter).\<close>

fun findSubmatch :: "(char \<Rightarrow> bool) \<Rightarrow> string \<Rightarrow> (string \<times> string \<times> string) option" where
  "findSubmatch vc [] = matchAt vc []"
| "findSubmatch vc (c # s) =
     (case matchAt vc (c # s) of Some m \<Rightarrow> Some m | None \<Rightarrow> findSubmatch vc s)"

text \<open>\<^verbatim>\<open>Datapoint{}\<close>: the \<^verbatim>\<open>Unix()\<close> of the zero \<^verbatim>\<open>time.Time\<close>, the empty strings and 0.\<close>

definition emptyDatapoint :: "'v::zero Datapoint" where
  "emptyDatapoint = \<lparr>Datapoint.Timestamp = - 62135596800, Name = [], Value = 0, Datatype = []\<rparr>"

text \<open>Lines 153-165; \<open>now\<close> is what \<^verbatim>\<open>time.Now()\<close> returns. A match of this expression
  always has its four submatches, so \<^verbatim>\<open>len(matches[0]) == 4\<close> holds whenever there is a
  match.\<close>

definition parseDatapoint :: "(string \<Rightarrow> 'v) \<Rightarrow> int \<Rightarrow> string \<Rightarrow> 'v::zero Datapoint" where
  "parseDatapoint parseFloat now metric =
     (case findSubmatch valueChar metric of
        Some (name, v, t) \<Rightarrow>
          \<lparr>Datapoint.Timestamp = now, Name = name, Value = parseFloat v, Datatype = t\<rparr>
      | None \<Rightarrow> emptyDatapoint)"

text \<open>A send on one of the three engine channels.\<close>

datatype 'v queue_send =
  ToGauge "'v Datapoint" | ToCounter "'v Datapoint" | ToTimer "'v Datapoint"

text \<open>Lines 141-151.\<close>

definition processIncomingMessage ::
  "(string \<Rightarrow> 'v) \<Rightarrow> int \<Rightarrow> string \<Rightarrow> ('v::zero) queue_send list" where
  "processIncomingMessage parseFloat now message =
     (let d = parseDatapoint parseFloat now message
      in if Datatype d = ''g'' then [ToGauge d]
         else if Datatype d = ''c'' then [ToCounter d]
         else if Datatype d = ''ms'' then [ToTimer d]
         else [])"

text \<open>The spec's grammar, in its words: somewhere in the line stands a colon, then a value
  of one or more characters of the class, then a bar, then one of the three type
  letters; what stands before the colon is the name.\<close>

definition grammar :: "(char \<Rightarrow> bool) \<Rightarrow> string \<Rightarrow> bool" where
  "grammar vc line \<longleftrightarrow>
     (\<exists>pre v t post. line = pre @ '':'' @ v @ ''|'' @ t @ post \<and> v \<noteq> [] \<and> list_all vc v \<and>
        (t = ''c'' \<or> t = ''g'' \<or> t = ''ms''))"

section \<open>The historical sink writer and the name registry writer\<close>

text \<open>
  \<^verbatim>\<open>appendToFile\<close> (lines 182-223) works on the file system. The model keeps the content
  of each file of the store by its path, the directories \<^verbatim>\<open>os.MkdirAll\<close> has made, and the
  names sent on the channel \<^verbatim>\<open>datapoints\<close>. What the operating system answers beyond
  that is an input of each step: whether \<^verbatim>\<open>os.OpenFile\<close> fails with an error other than
  \<^verbatim>\<open>ENOENT\<close>, and whether \<^verbatim>\<open>os.MkdirAll\<close>, \<^verbatim>\<open>os.Create\<close> and the buffered write fail.
  \<^verbatim>\<open>os.OpenFile\<close> without \<^verbatim>\<open>O_CREATE\<close> fails with \<^verbatim>\<open>ENOENT\<close> exactly when no error of another
  kind comes first and the file does not exist.
\<close>

record sink_state =
  files :: "string \<rightharpoonup> string"
  dirs :: "string set"
  datapoints :: "string list"

record io_faults =
  open_fails :: bool
  mkdir_fails :: bool
  create_fails :: bool
  write_fails :: bool

text \<open>
  One turn of the loop, for one observation. \<open>calculateFilename\<close> is
  \<^verbatim>\<open>shared.CalculateFilename\<close> and \<open>dirOf\<close> is \<^verbatim>\<open>filepath.Dir\<close>; neither is among the source
  files. The source prints the errors of \<^verbatim>\<open>os.MkdirAll\<close> and \<^verbatim>\<open>os.Create\<close> and goes on; it
  sends the name on \<^verbatim>\<open>datapoints\<close> whether or not the file was created; it writes only when
  it holds a file, and it drops the results of \<^verbatim>\<open>WriteString\<close>, \<^verbatim>\<open>Flush\<close> and \<^verbatim>\<open>Close\<close>. A
  write that fails is taken to write nothing.
\<close>

definition appendObservation ::
  "(string \<Rightarrow> string \<Rightarrow> string) \<Rightarrow> (string \<Rightarrow> string) \<Rightarrow> string \<Rightarrow> sink_state \<Rightarrow>
   AggregateObservation \<times> io_faults \<Rightarrow> error + sink_state" where
  "appendObservation calculateFilename dirOf rootDir st = (\<lambda>(observation, faults).
     let filename = calculateFilename (AggregateObservation.Name observation) rootDir
     in if open_fails faults then Inl Panic
        else (case files st filename of
                Some content \<Rightarrow>
                  Inr (st\<lparr>files := (files st)(filename \<mapsto>
                         (if write_fails faults then content
                          else content @ Content observation))\<rparr>)
              | None \<Rightarrow>
                  let st1 = (if mkdir_fails faults then st
                             else st\<lparr>dirs := insert (dirOf filename) (dirs st)\<rparr>);
                      st2 = st1\<lparr>datapoints :=
                                 datapoints st1 @ [AggregateObservation.Name observation]\<rparr>
                  in if create_fails faults then Inr st2
                     else Inr (st2\<lparr>files := (files st2)(filename \<mapsto>
                                 (if write_fails faults then []
                                  else ''v2 '' @ AggregateObservation.Name observation @
                                       ''\<newline>'' @ Content observation))\<rparr>)))"

text \<open>The loop over the observations the channel delivers; a panic ends the process.\<close>

fun appendToFile ::
  "(string \<Rightarrow> string \<Rightarrow> string) \<Rightarrow> (string \<Rightarrow> string) \<Rightarrow> string \<Rightarrow> sink_state \<Rightarrow>
   (AggregateObservation \<times> io_faults) list \<Rightarrow> error + sink_state" where
  "appendToFile calculateFilename dirOf rootDir st [] = Inr st"
| "appendToFile calculateFilename dirOf rootDir st (x # ch) =
     (case appendObservation calculateFilename dirOf rootDir st x of
        Inl e \<Rightarrow> Inl e
      | Inr st' \<Rightarrow> appendToFile calculateFilename dirOf rootDir st' ch)"

text \<open>\<^verbatim>\<open>saveNewDatapoints\<close> (lines 167-180): one \<^verbatim>\<open>SADD datapoints <name>\<close> for each name the
  channel delivers.\<close>

datatype redis_call = Sadd string string

definition saveNewDatapoints :: "string list \<Rightarrow> redis_call list" where
  "saveNewDatapoints ch = map (\<lambda>d. Sadd ''datapoints'' d) ch"

text \<open>The payloads of the observations of a name, in order, and whether a name occurs.\<close>

definition payloads :: "string \<Rightarrow> (AggregateObservation \<times> io_faults) list \<Rightarrow> string" where
  "payloads name ch =
     concat (map (\<lambda>(observation, faults).
                    if AggregateObservation.Name observation = name then Content observation
                    else []) ch)"

definition occurs :: "string \<Rightarrow> (AggregateObservation \<times> io_faults) list \<Rightarrow> bool" where
  "occurs name ch = list_ex (\<lambda>(observation, faults). AggregateObservation.Name observation = name) ch"

definition faultless :: "(AggregateObservation \<times> io_faults) list \<Rightarrow> bool" where
  "faultless ch =
     list_all (\<lambda>(observation, faults).
                 \<not> open_fails faults \<and> \<not> create_fails faults \<and> \<not> write_fails faults) ch"

text \<open>For closed examples: a resolver that puts the file of a name under the root, and the
  directory of such a file.\<close>

definition samplePath :: "string \<Rightarrow> string \<Rightarrow> string" where
  "samplePath name rootDir = rootDir @ ''/'' @ name"

definition sampleDir :: "string \<Rightarrow> string" where
  "sampleDir path = ''/data''"

section \<open>Theorems\<close>

subsection \<open>Integers as text\<close>

lemma showNat_digit: "n < 10 \<Longrightarrow> showNat n = [digitChar n]"
  by (simp add: showNat.simps)

lemma showNat_step: "10 \<le> n \<Longrightarrow> showNat n = showNat (n div 10) @ [digitChar (n mod 10)]"
  by (subst showNat.simps) simp

subsection \<open>The gauge engine\<close>

text \<open>
  C9. For every gauge Datapoint the gauge engine consumes, one observation is emitted: the
  sends of a run are, datapoint by datapoint and in order, one send to the historical
  (disk) channel, whose channel name is \<open>gauges:<name>\<close> and whose payload is the ingest
  time in Unix seconds, a space, the value and a newline. Nothing is sent to the
  recent-values (redis) channel. The send for a datapoint is a function of that datapoint
  alone, whatever came before it: the engine keeps no state, and its only input is its
  datapoint channel.
\<close>

theorem processGauges_pass_through:
  "processGauges fmtFloat gauges =
     map (\<lambda>d. ToDisk \<lparr>AggregateObservation.Name = ''gauges:'' @ Datapoint.Name d,
                       Content = showInt (Datapoint.Timestamp d) @ '' '' @ fmtFloat (Value d) @ ''\<newline>'',
                       Timestamp = 0\<rparr>) gauges
   \<and> length (processGauges fmtFloat gauges) = length gauges
   \<and> [ob. ToRedis ob \<leftarrow> processGauges fmtFloat gauges] = []
   \<and> processGauges fmtFloat (before @ gauges) =
       processGauges fmtFloat before @ processGauges fmtFloat gauges"
proof -
  have shape: "processGauges fmtFloat ds =
     map (\<lambda>d. ToDisk \<lparr>AggregateObservation.Name = ''gauges:'' @ Datapoint.Name d,
                       Content = showInt (Datapoint.Timestamp d) @ '' '' @ fmtFloat (Value d) @ ''\<newline>'',
                       Timestamp = 0\<rparr>) ds" for ds
    by (induction ds) simp_all
  have no_redis: "[ob. ToRedis ob \<leftarrow> processGauges fmtFloat ds] = []" for ds
    by (induction ds) simp_all
  show ?thesis
    by (simp add: shape no_redis)
qed

subsection \<open>Bucket wheels\<close>

lemma go_rem_nonneg: "0 \<le> a \<Longrightarrow> 0 < b \<Longrightarrow> go_rem a b = Inr (a mod b)"
  by (cases "a = 0") (simp_all add: go_rem_def)

lemma collect_Inr:
  "(\<And>x. x \<in> set xs \<Longrightarrow> f x = Inr (g x)) \<Longrightarrow> collect (map f xs) = Inr (map g xs)"
  by (induction xs) simp_all

lemma collect_Inl:
  "x \<in> set xs \<Longrightarrow> f x = Inl e \<Longrightarrow> collect (map f xs) = Inl Panic"
proof (induction xs)
  case Nil
  then show ?case by simp
next
  case (Cons y ys)
  show ?case
  proof (cases "f y")
    case (Inl e')
    then show ?thesis by (cases e') simp
  next
    case (Inr a)
    with Cons have "x \<in> set ys" by auto
    from Cons.IH [OF this Cons.prems(2)] Inr show ?thesis by simp
  qed
qed

lemma flushLoop_fold:
  "flushLoop emits es b =
     (filter (\<lambda>(k, v). emits v) es,
      fold (\<lambda>(k, v). AList.delete k) (filter (\<lambda>(k, v). emits v) es) b)"
  by (induction emits es b rule: flushLoop.induct) (simp_all split: prod.splits)

lemma fold_delete_filter:
  "fold (\<lambda>(k, v). AList.delete k) es b = filter (\<lambda>(k, v). k \<notin> fst ` set es) b"
proof (induction es arbitrary: b)
  case Nil
  then show ?case by simp
next
  case (Cons e es)
  obtain k v where e: "e = (k, v)" by (cases e)
  have "filter (\<lambda>(k', v). k' \<notin> fst ` set es) (AList.delete k b) =
        filter (\<lambda>(k', v). k' \<notin> fst ` set (e # es)) b"
    by (induction b) (auto simp: e)
  with Cons.IH [of "AList.delete k b"] show ?case by (simp add: e)
qed

lemma flushLoop_self:
  assumes "distinct (map fst b)"
  shows "flushLoop emits b b = (filter (\<lambda>(k, v). emits v) b, filter (\<lambda>(k, v). \<not> emits v) b)"
proof -
  have "filter (\<lambda>(k, v). k \<notin> fst ` set (filter (\<lambda>(k, v). emits v) b)) b =
        filter (\<lambda>(k, v). \<not> emits v) b"
  proof (rule filter_cong [OF refl])
    fix x assume x: "x \<in> set b"
    obtain k v where kv: "x = (k, v)" by (cases x)
    have "k \<in> fst ` set (filter (\<lambda>(k, v). emits v) b) \<longleftrightarrow> emits v"
    proof
      assume "k \<in> fst ` set (filter (\<lambda>(k, v). emits v) b)"
      then obtain v' where v': "(k, v') \<in> set b" "emits v'" by auto
      from assms x v'(1) have "v' = v" unfolding kv by (rule_tac eq_key_imp_eq_value)
      with v'(2) show "emits v" by simp
    next
      assume "emits v"
      with x kv show "k \<in> fst ` set (filter (\<lambda>(k, v). emits v) b)" by force
    qed
    then show "(case x of (k, v) \<Rightarrow> k \<notin> fst ` set (filter (\<lambda>(k, v). emits v) b)) =
               (case x of (k, v) \<Rightarrow> \<not> emits v)"
      by (simp add: kv)
  qed
  then show ?thesis by (simp add: flushLoop_fold fold_delete_filter)
qed

lemma slotOf_less: "0 < interval \<Longrightarrow> slotOf hash name interval < nat interval"
  by (simp add: slotOf_def nat_less_iff)

lemma wheelData_ok:
  assumes "0 < interval" "length wheel = nat interval"
  shows "wheelData hash upd z name interval wheel = Inr (putWheel hash upd z name interval wheel)"
proof -
  have r: "go_rem (uint (hash name)) interval = Inr (uint (hash name) mod interval)"
    using assms(1) by (simp add: go_rem_nonneg)
  have "nat (uint (hash name) mod interval) < length wheel"
    using slotOf_less [OF assms(1), of hash name] assms(2) by (simp add: slotOf_def)
  moreover have "0 \<le> uint (hash name) mod interval" using assms(1) by simp
  ultimately show ?thesis
    by (simp add: wheelData_def r putWheel_def slotOf_def)
qed

lemma alignedTimestamp_ok:
  "interval \<noteq> 0 \<Longrightarrow> alignedTimestamp now interval = Inr (stampOf now interval)"
  by (simp add: alignedTimestamp_def go_rem_def stampOf_def)

lemma stampOf_floor:
  "0 \<le> t \<Longrightarrow> 0 < interval \<Longrightarrow> stampOf (t, t) interval = (t div interval) * interval"
proof -
  assume t: "0 \<le> t" and i: "0 < interval"
  have "sgn t * (\<bar>t\<bar> mod \<bar>interval\<bar>) = t mod interval"
    using t i by (cases "t = 0") simp_all
  then show ?thesis
    by (simp add: stampOf_def minus_mod_eq_div_mult)
qed

lemma wheelFlush_ok:
  assumes "0 < interval" "0 \<le> cur" "cur < interval" "length wheel = nat interval"
    and "distinct (map fst (wheel ! nat cur))"
  shows "wheelFlush emits i now interval cur interval wheel =
     Inr (map (\<lambda>(key, v). (i, stampOf now interval, key, v))
            (filter (\<lambda>(key, v). emits v) (wheel ! nat cur)),
          nextSlot cur interval,
          wheel[nat cur := filter (\<lambda>(key, v). \<not> emits v) (wheel ! nat cur)])"
proof -
  have "nat cur < length wheel" using assms(2,3,4) by simp
  then show ?thesis
    using assms(1,2)
    by (simp add: wheelFlush_def alignedTimestamp_ok flushLoop_self [OF assms(5)] nextSlot_def)
qed

lemma wf_engineD:
  assumes "engine_inv hash P retentions st" "i < length retentions"
  shows "0 < retentions ! i" "0 \<le> currentSlots st ! i" "currentSlots st ! i < retentions ! i"
    "length (wheels st ! i) = nat (retentions ! i)"
    "nat (currentSlots st ! i) < length (wheels st ! i)"
    "maxSlots st ! i = retentions ! i"
    "s < nat (retentions ! i) \<Longrightarrow> distinct (map fst (wheels st ! i ! s))"
    "distinct (map fst (currentBucket st i))"
proof -
  from assms have a: "0 \<le> currentSlots st ! i" "currentSlots st ! i < retentions ! i"
    "length (wheels st ! i) = nat (retentions ! i)" "maxSlots st = retentions"
    and d: "\<forall>s < nat (retentions ! i). distinct (map fst (wheels st ! i ! s))"
    by (auto simp: engine_inv_def)
  from a show "0 < retentions ! i" "0 \<le> currentSlots st ! i" "currentSlots st ! i < retentions ! i"
    "length (wheels st ! i) = nat (retentions ! i)" "maxSlots st ! i = retentions ! i"
    by simp_all
  from a show lt: "nat (currentSlots st ! i) < length (wheels st ! i)" by simp
  from d show "s < nat (retentions ! i) \<Longrightarrow> distinct (map fst (wheels st ! i ! s))" by blast
  from d lt a(3) show "distinct (map fst (currentBucket st i))"
    by (simp add: currentBucket_def)
qed

lemma engine_inv_entry:
  assumes "engine_inv hash P retentions st" "i < length retentions"
    "s < nat (retentions ! i)" "(key, v) \<in> set (wheels st ! i ! s)"
  shows "slotOf hash key (retentions ! i) = s" "P v"
  using assms unfolding engine_inv_def by blast+

lemma wf_engine_lengths:
  "engine_inv hash P retentions st \<Longrightarrow> length (currentSlots st) = length retentions"
  "engine_inv hash P retentions st \<Longrightarrow> length (maxSlots st) = length retentions"
  "engine_inv hash P retentions st \<Longrightarrow> length (wheels st) = length retentions"
  by (auto simp: engine_inv_def)

lemma engineData_ok:
  assumes wf: "engine_inv hash P retentions st"
  shows "engineData hash upd z retentions st name = Inr (dataState hash upd z retentions st name)"
proof -
  have "collect (map (\<lambda>i. if i < length (maxSlots st) \<and> i < length (wheels st)
                              then wheelData hash upd z name (maxSlots st ! i) (wheels st ! i)
                              else Inl Panic) [0..<length retentions]) =
        Inr (map (\<lambda>i. putWheel hash upd z name (retentions ! i) (wheels st ! i))
               [0..<length retentions])"
  proof (rule collect_Inr)
    fix i assume "i \<in> set [0..<length retentions]"
    then have i: "i < length retentions" by simp
    show "(if i < length (maxSlots st) \<and> i < length (wheels st)
           then wheelData hash upd z name (maxSlots st ! i) (wheels st ! i) else Inl Panic) =
          Inr (putWheel hash upd z name (retentions ! i) (wheels st ! i))"
      using i wf_engine_lengths [OF wf] wf_engineD(1,4,6) [OF wf i]
      by (simp add: wheelData_ok)
  qed
  then show ?thesis
    unfolding engineData_def
    by (simp add: dataState_def wf_engine_lengths [OF wf])
qed

lemma engineHeartbeat_ok:
  assumes wf: "engine_inv hash P retentions st"
  shows "engineHeartbeat emits retentions st clock =
     Inr (tickState emits retentions st,
          concat (map (tickFlushed emits retentions st clock) [0..<length retentions]))"
proof -
  let ?g = "\<lambda>i. (tickFlushed emits retentions st clock i,
                  nextSlot (currentSlots st ! i) (retentions ! i),
                  (wheels st ! i)[nat (currentSlots st ! i) :=
                     filter (\<lambda>(key, v). \<not> emits v) (currentBucket st i)])"
  have c: "collect (map (\<lambda>i. if i < length retentions \<and> i < length (maxSlots st) \<and>
                                 i < length (wheels st)
                              then wheelFlush emits i (clock i) (retentions ! i)
                                     (currentSlots st ! i) (maxSlots st ! i) (wheels st ! i)
                              else Inl Panic) [0..<length (currentSlots st)]) =
        Inr (map ?g [0..<length (currentSlots st)])"
  proof (rule collect_Inr)
    fix i assume "i \<in> set [0..<length (currentSlots st)]"
    then have i: "i < length retentions" using wf_engine_lengths [OF wf] by simp
    show "(if i < length retentions \<and> i < length (maxSlots st) \<and> i < length (wheels st)
           then wheelFlush emits i (clock i) (retentions ! i)
                  (currentSlots st ! i) (maxSlots st ! i) (wheels st ! i)
           else Inl Panic) = Inr (?g i)"
      using i wf_engine_lengths [OF wf] wf_engineD(6) [OF wf i]
        wheelFlush_ok [OF wf_engineD(1,2,3,4) [OF wf i], of emits i "clock i"]
        wf_engineD(8) [OF wf i]
      by (simp add: tickFlushed_def currentBucket_def)
  qed
  show ?thesis
    unfolding engineHeartbeat_def c
    by (simp add: tickState_def wf_engine_lengths [OF wf] o_def split_def)
qed

lemma engineInit_ok:
  assumes "list_all (\<lambda>interval. 0 < interval) retentions"
  shows "engineInit retentions = Inr (initState retentions)"
    and "engine_inv hash P retentions (initState retentions)"
proof -
  have "\<not> list_ex (\<lambda>interval. interval div heartbeatInterval < 0) retentions"
    using assms by (auto simp: list_ex_iff list_all_iff heartbeatInterval_def)
  then show "engineInit retentions = Inr (initState retentions)"
    by (simp add: engineInit_def initState_def heartbeatInterval_def)
  show "engine_inv hash P retentions (initState retentions)"
    using assms by (auto simp: engine_inv_def initState_def list_all_length)
qed

lemma set_update_cases:
  "(key, v) \<in> set (AList.update k x al) \<Longrightarrow> (key, v) = (k, x) \<or> (key, v) \<in> set al"
  by (induction al) (auto split: if_splits)

lemma engine_inv_dataState_cond:
  assumes inv: "engine_inv hash P retentions st"
    and Pz: "P (upd z)" and Pold: "\<And>old. P old \<Longrightarrow> P (upd old)"
  shows "engine_inv hash P retentions (dataState hash upd z retentions st name)"
  unfolding engine_inv_def
proof (intro conjI allI impI)
  let ?st = "dataState hash upd z retentions st name"
  show "length (currentSlots ?st) = length retentions" "maxSlots ?st = retentions"
    "length (wheels ?st) = length retentions"
    using inv by (simp_all add: dataState_def engine_inv_def)
  fix i assume i: "i < length retentions"
  have w: "wheels ?st ! i = putWheel hash upd z name (retentions ! i) (wheels st ! i)"
    using i by (simp add: dataState_def)
  show "0 \<le> currentSlots ?st ! i" "currentSlots ?st ! i < retentions ! i"
    using wf_engineD(2,3) [OF inv i] by (simp_all add: dataState_def)
  show len: "length (wheels ?st ! i) = nat (retentions ! i)"
    using wf_engineD(4) [OF inv i] by (simp add: w putWheel_def)
  fix s assume s: "s < nat (retentions ! i)"
  let ?h = "slotOf hash name (retentions ! i)"
  have sl: "s < length (wheels st ! i)" using s wf_engineD(4) [OF inv i] by simp
  have b: "wheels ?st ! i ! s =
           (if s = ?h then AList.update name (upd (bucketLookup z (wheels st ! i ! s) name))
                             (wheels st ! i ! s)
            else wheels st ! i ! s)"
    using sl by (simp add: w putWheel_def nth_list_update)
  show "distinct (map fst (wheels ?st ! i ! s))"
    using wf_engineD(7) [OF inv i s] by (auto simp: b distinct_update)
  show "\<forall>(key, v) \<in> set (wheels ?st ! i ! s). slotOf hash key (retentions ! i) = s \<and> P v"
  proof (clarify)
    fix key v assume kv: "(key, v) \<in> set (wheels ?st ! i ! s)"
    then have kv': "(key, v) \<in> set (if s = ?h
        then AList.update name (upd (bucketLookup z (wheels st ! i ! s) name)) (wheels st ! i ! s)
        else wheels st ! i ! s)"
      by (simp only: b)
    show "slotOf hash key (retentions ! i) = s \<and> P v"
    proof (cases "s = ?h")
      case True
      from kv' True have "(key, v) \<in> set (AList.update name
          (upd (bucketLookup z (wheels st ! i ! s) name)) (wheels st ! i ! s))"
        by simp
      then have "(key, v) = (name, upd (bucketLookup z (wheels st ! i ! s) name)) \<or>
                 (key, v) \<in> set (wheels st ! i ! s)"
        by (rule set_update_cases)
      moreover have "P (upd (bucketLookup z (wheels st ! i ! s) name))"
      proof (cases "map_of (wheels st ! i ! s) name")
        case None
        then show ?thesis by (simp add: bucketLookup_def Pz)
      next
        case (Some old)
        then have "(name, old) \<in> set (wheels st ! i ! s)" by (rule map_of_SomeD)
        from engine_inv_entry(2) [OF inv i s this] Some show ?thesis
          by (simp add: bucketLookup_def Pold)
      qed
      ultimately show ?thesis
        using True engine_inv_entry [OF inv i s] by auto
    next
      case False
      with kv' have "(key, v) \<in> set (wheels st ! i ! s)" by simp
      then show ?thesis using engine_inv_entry [OF inv i s] by auto
    qed
  qed
qed

lemma engine_inv_dataState:
  assumes inv: "engine_inv hash P retentions st" and P: "\<And>old. P (upd old)"
  shows "engine_inv hash P retentions (dataState hash upd z retentions st name)"
  by (rule engine_inv_dataState_cond [OF inv]) (rule P)+

lemma engine_inv_tickState:
  assumes inv: "engine_inv hash P retentions st"
  shows "engine_inv hash P retentions (tickState emits retentions st)"
  unfolding engine_inv_def
proof (intro conjI allI impI)
  let ?st = "tickState emits retentions st"
  show "length (currentSlots ?st) = length retentions" "maxSlots ?st = retentions"
    "length (wheels ?st) = length retentions"
    using inv by (simp_all add: tickState_def engine_inv_def)
  fix i assume i: "i < length retentions"
  have c: "currentSlots ?st ! i = nextSlot (currentSlots st ! i) (retentions ! i)"
    using i by (simp add: tickState_def)
  have w: "wheels ?st ! i = (wheels st ! i)[nat (currentSlots st ! i) :=
             filter (\<lambda>(key, v). \<not> emits v) (currentBucket st i)]"
    using i by (simp add: tickState_def)
  show "0 \<le> currentSlots ?st ! i" "currentSlots ?st ! i < retentions ! i"
    using wf_engineD(1,2,3) [OF inv i] by (simp_all add: c nextSlot_def)
  show "length (wheels ?st ! i) = nat (retentions ! i)"
    using wf_engineD(4) [OF inv i] by (simp add: w)
  fix s assume s: "s < nat (retentions ! i)"
  have sl: "s < length (wheels st ! i)" using s wf_engineD(4) [OF inv i] by simp
  have b: "wheels ?st ! i ! s =
           (if s = nat (currentSlots st ! i)
            then filter (\<lambda>(key, v). \<not> emits v) (wheels st ! i ! s)
            else wheels st ! i ! s)"
    using sl by (simp add: w nth_list_update currentBucket_def)
  show "distinct (map fst (wheels ?st ! i ! s))"
    using wf_engineD(7) [OF inv i s] by (auto simp: b distinct_map_filter)
  show "\<forall>(key, v) \<in> set (wheels ?st ! i ! s). slotOf hash key (retentions ! i) = s \<and> P v"
    using engine_inv_entry [OF inv i s] by (auto simp: b split: if_splits)
qed

lemma ticks_simps [simp]:
  "ticks [] = 0"
  "ticks (Recv d # events) = ticks events"
  "ticks (Heartbeat clock # events) = Suc (ticks events)"
  "ticks (events @ events') = ticks events + ticks events'"
  by (simp_all add: ticks_def)

lemma engineStep_Recv:
  assumes "engine_inv hash P retentions st"
  shows "engineStep hash acc z emits retentions st (Recv d) =
         Inr (dataState hash (acc (Value d)) z retentions st (Datapoint.Name d), [])"
  by (simp add: engineStep_def engineData_ok [OF assms])

lemma engineStep_Heartbeat:
  assumes "engine_inv hash P retentions st"
  shows "engineStep hash acc z emits retentions st (Heartbeat clock) =
         Inr (tickState emits retentions st,
              concat (map (tickFlushed emits retentions st clock) [0..<length retentions]))"
  by (simp add: engineStep_def engineHeartbeat_ok [OF assms])

lemma engineStep_inv:
  assumes inv: "engine_inv hash P retentions st" and P: "\<And>d old. P (acc d old)"
  shows "\<exists>st' out. engineStep hash acc z emits retentions st ev = Inr (st', out) \<and>
           engine_inv hash P retentions st'"
proof (cases ev)
  case (Recv d)
  show ?thesis
    unfolding Recv engineStep_Recv [OF inv]
    using engine_inv_dataState [where upd = "acc (Value d)", OF inv] P by blast
next
  case (Heartbeat clock)
  show ?thesis
    unfolding Heartbeat engineStep_Heartbeat [OF inv]
    using engine_inv_tickState [OF inv] by blast
qed

lemma engineLoop_append:
  "engineLoop step st (evs @ evs') =
     (case engineLoop step st evs of
        Inl e \<Rightarrow> Inl e
      | Inr (st', out) \<Rightarrow>
          (case engineLoop step st' evs' of
             Inl e \<Rightarrow> Inl e
           | Inr (st'', out') \<Rightarrow> Inr (st'', out @ out')))"
  by (induction evs arbitrary: st) (auto split: sum.splits prod.splits)

lemma engineLoop_inv:
  assumes inv: "engine_inv hash P retentions st" and P: "\<And>d old. P (acc d old)"
  shows "\<exists>st' out. engineLoop (engineStep hash acc z emits retentions) st evs = Inr (st', out) \<and>
           engine_inv hash P retentions st'"
  using inv
proof (induction evs arbitrary: st)
  case Nil
  then show ?case by simp
next
  case (Cons ev evs)
  from engineStep_inv [where acc = acc and z = z and emits = emits and ev = ev, OF Cons.prems P] obtain st1 out1 where
    s: "engineStep hash acc z emits retentions st ev = Inr (st1, out1)"
    and i: "engine_inv hash P retentions st1" by blast
  from Cons.IH [OF i] obtain st2 out2 where
    "engineLoop (engineStep hash acc z emits retentions) st1 evs = Inr (st2, out2)"
    "engine_inv hash P retentions st2" by blast
  with s show ?case by simp
qed

lemma engineRun_inv:
  assumes pos: "list_all (\<lambda>interval. 0 < interval) retentions" and P: "\<And>d old. P (acc d old)"
  shows "\<exists>st out. engineRun hash acc z emits retentions evs = Inr (st, out) \<and>
           engine_inv hash P retentions st"
  unfolding engineRun_def engineInit_ok(1) [OF pos]
  using engineLoop_inv [where acc = acc and P = P and hash = hash, OF engineInit_ok(2) [OF pos] P] by simp

lemma engineRun_reaches:
  assumes pos: "list_all (\<lambda>interval. 0 < interval) retentions" and P: "\<And>d old. P (acc d old)"
    and run: "engineRun hash acc z emits retentions evs = Inr (st, out)"
  shows "engine_inv hash P retentions st"
  using engineRun_inv [where acc = acc and P = P and hash = hash and z = z and emits = emits and evs = evs, OF pos P] run by auto

lemma nextSlot_mod:
  "0 \<le> c \<Longrightarrow> c < n \<Longrightarrow> nextSlot c n = (c + 1) mod n"
  by (auto simp: nextSlot_def)

lemma engineLoop_slot:
  assumes inv: "engine_inv hash P retentions st" and P: "\<And>d old. P (acc d old)"
    and run: "engineLoop (engineStep hash acc z emits retentions) st evs = Inr (st', out)"
    and i: "i < length retentions"
  shows "currentSlots st' ! i = (currentSlots st ! i + int (ticks evs)) mod retentions ! i"
  using inv run
proof (induction evs arbitrary: st out)
  case Nil
  then show ?case using wf_engineD(2,3) [OF Nil(1) i] by simp
next
  case (Cons ev evs)
  from engineStep_inv [where acc = acc and z = z and emits = emits and ev = ev, OF Cons.prems(1) P] obtain st1 out1 where
    s: "engineStep hash acc z emits retentions st ev = Inr (st1, out1)"
    and i1: "engine_inv hash P retentions st1" by blast
  from Cons.prems(2) s obtain out2 where
    l: "engineLoop (engineStep hash acc z emits retentions) st1 evs = Inr (st', out2)"
    by (auto split: sum.splits prod.splits)
  note ih = Cons.IH [OF i1 l]
  show ?case
  proof (cases ev)
    case (Recv d)
    with s engineStep_Recv [where acc = acc and z = z and emits = emits and d = d, OF Cons.prems(1)]
    have "st1 = dataState hash (acc (Value d)) z retentions st (Datapoint.Name d)" by simp
    then have "currentSlots st1 = currentSlots st" by (simp add: dataState_def)
    with ih Recv show ?thesis by simp
  next
    case (Heartbeat clock)
    with s engineStep_Heartbeat [where acc = acc and z = z and emits = emits and clock = clock, OF Cons.prems(1)]
    have "st1 = tickState emits retentions st" by simp
    then have "currentSlots st1 ! i = nextSlot (currentSlots st ! i) (retentions ! i)"
      using i by (simp add: tickState_def)
    also have "\<dots> = (currentSlots st ! i + 1) mod retentions ! i"
      by (rule nextSlot_mod [OF wf_engineD(2,3) [OF Cons.prems(1) i]])
    finally have "currentSlots st' ! i =
        ((currentSlots st ! i + 1) mod retentions ! i + int (ticks evs)) mod retentions ! i"
      using ih by simp
    also have "\<dots> = (currentSlots st ! i + 1 + int (ticks evs)) mod retentions ! i"
      by (rule mod_add_left_eq)
    finally show ?thesis
      by (simp add: Heartbeat add.assoc)
  qed
qed

lemma engineLoop_map:
  "engineLoop (\<lambda>st ev. case step st ev of Inl e \<Rightarrow> Inl e
                                        | Inr (st', flushed) \<Rightarrow> Inr (st', map f flushed)) st evs =
     (case engineLoop step st evs of
        Inl e \<Rightarrow> Inl e
      | Inr (st', flushed) \<Rightarrow> Inr (st', map f flushed))"
  by (induction evs arbitrary: st) (auto split: sum.splits prod.splits)

lemma processCounters_engineRun:
  "processCounters hash fmtFloat retentions events =
     (case engineRun hash counterAcc 0 counterEmits retentions events of
        Inl e \<Rightarrow> Inl e
      | Inr (st, flushed) \<Rightarrow> Inr (st, map (counterObservation fmtFloat retentions) flushed))"
proof -
  have "processCounters_step hash fmtFloat retentions =
        (\<lambda>st ev. case engineStep hash counterAcc 0 counterEmits retentions st ev of
                    Inl e \<Rightarrow> Inl e
                  | Inr (st', flushed) \<Rightarrow>
                      Inr (st', map (counterObservation fmtFloat retentions) flushed))"
    by (intro ext) (simp add: processCounters_step_def)
  then show ?thesis
    by (simp add: processCounters_def engineRun_def engineLoop_map split: sum.splits)
qed

lemma processTimers_engineRun:
  "processTimers hash fmtFloat shared retentions events =
     (case engineRun hash timerAcc [] timerEmits retentions events of
        Inl e \<Rightarrow> Inl e
      | Inr (st, flushed) \<Rightarrow> Inr (st, map (timerObservation fmtFloat shared retentions) flushed))"
proof -
  have "processTimers_step hash fmtFloat shared retentions =
        (\<lambda>st ev. case engineStep hash timerAcc [] timerEmits retentions st ev of
                    Inl e \<Rightarrow> Inl e
                  | Inr (st', flushed) \<Rightarrow>
                      Inr (st', map (timerObservation fmtFloat shared retentions) flushed))"
    by (intro ext) (simp add: processTimers_step_def)
  then show ?thesis
    by (simp add: processTimers_def engineRun_def engineLoop_map split: sum.splits)
qed

subsection \<open>The dispatcher-fed engine loop\<close>

lemma created_for_simps [simp]:
  "created_for [] nm = []"
  "created_for (Creator m nm' # cs) nm = (if nm' = nm then m # created_for cs nm else created_for cs nm)"
  "created_for (Start m # cs) nm = created_for cs nm"
  "created_for (Update m v # cs) nm = created_for cs nm"
  by (simp_all add: created_for_def)

lemma starts_of_simps [simp]:
  "starts_of [] m = 0"
  "starts_of (Creator m' nm # cs) m = starts_of cs m"
  "starts_of (Start m' # cs) m = (if m' = m then Suc (starts_of cs m) else starts_of cs m)"
  "starts_of (Update m' v # cs) m = starts_of cs m"
  by (simp_all add: starts_of_def)

lemma updates_of_simps [simp]:
  "updates_of [] m = []"
  "updates_of (Creator m' nm # cs) m = updates_of cs m"
  "updates_of (Start m' # cs) m = updates_of cs m"
  "updates_of (Update m' v # cs) m = (if m' = m then v # updates_of cs m else updates_of cs m)"
  by (simp_all add: updates_of_def)

lemma names_of_simps [simp]:
  "names_of [] m = []"
  "names_of (Creator m' nm # cs) m = (if m' = m then nm # names_of cs m else names_of cs m)"
  "names_of (Start m' # cs) m = names_of cs m"
  "names_of (Update m' v # cs) m = names_of cs m"
  by (simp_all add: names_of_def)

lemma values_for_simps [simp]:
  "values_for [] nm = []"
  "values_for (d # ch) nm = (if Datapoint.Name d = nm then Value d # values_for ch nm else values_for ch nm)"
  by (simp_all add: values_for_def)

lemma bound_fresh:
  "(\<forall>nm m. metrics nm = Some m \<longrightarrow> m < n) \<Longrightarrow>
   (\<forall>nm m. (metrics(k \<mapsto> n)) nm = Some m \<longrightarrow> m < Suc n)"
  by (auto simp: less_Suc_eq)

lemma inj_on_fresh:
  assumes b: "\<forall>nm m. metrics nm = Some m \<longrightarrow> m < (n::nat)"
    and i: "inj_on metrics (dom metrics)"
  shows "inj_on (metrics(k \<mapsto> n)) (dom (metrics(k \<mapsto> n)))"
proof (rule inj_onI)
  fix x y
  assume x: "x \<in> dom (metrics(k \<mapsto> n))" and y: "y \<in> dom (metrics(k \<mapsto> n))"
    and e: "(metrics(k \<mapsto> n)) x = (metrics(k \<mapsto> n)) y"
  show "x = y"
  proof (cases "x = k")
    case True
    show ?thesis
    proof (cases "y = k")
      case False
      with True e have "metrics y = Some n" by simp
      with b have "n < n" by blast
      then show ?thesis by simp
    qed (simp add: True)
  next
    case False
    show ?thesis
    proof (cases "y = k")
      case True
      with False e have "metrics x = Some n" by simp
      with b have "n < n" by blast
      then show ?thesis by simp
    next
      case F: False
      with False x y e have "x \<in> dom metrics" "y \<in> dom metrics" "metrics x = metrics y"
        by auto
      with i show ?thesis by (auto dest: inj_onD)
    qed
  qed
qed

text \<open>Objects made by the loop are numbered from n on; nothing is done to an older
  object but updating it, and only when the map holds it.\<close>

lemma loop_fresh:
  "(\<forall>nm m. metrics nm = Some m \<longrightarrow> m < n) \<Longrightarrow> m < n \<Longrightarrow>
     names_of (processDatatype_loop metrics n ch) m = [] \<and>
     starts_of (processDatatype_loop metrics n ch) m = 0"
proof (induction ch arbitrary: metrics n)
  case Nil
  then show ?case by simp
next
  case (Cons d ch)
  show ?case
  proof (cases "metrics (Datapoint.Name d)")
    case None
    have b: "\<forall>nm m. (metrics(Datapoint.Name d \<mapsto> n)) nm = Some m \<longrightarrow> m < Suc n"
      by (rule bound_fresh [OF Cons.prems(1)])
    have lt: "m < Suc n" using Cons.prems(2) by simp
    have ne: "n \<noteq> m" using Cons.prems(2) by simp
    show ?thesis
      by (simp add: Cons.IH [of "metrics(Datapoint.Name d \<mapsto> n)" "Suc n", OF b lt] None ne)
  next
    case (Some m')
    then show ?thesis using Cons.IH [OF Cons.prems] by simp
  qed
qed

lemma loop_known:
  "(\<forall>nm m. metrics nm = Some m \<longrightarrow> m < n) \<Longrightarrow> inj_on metrics (dom metrics) \<Longrightarrow>
   metrics nm = Some m \<Longrightarrow>
     created_for (processDatatype_loop metrics n ch) nm = [] \<and>
     updates_of (processDatatype_loop metrics n ch) m = values_for ch nm"
proof (induction ch arbitrary: metrics n)
  case Nil
  then show ?case by simp
next
  case (Cons d ch)
  show ?case
  proof (cases "metrics (Datapoint.Name d)")
    case None
    let ?M = "metrics(Datapoint.Name d \<mapsto> n)"
    have ne: "Datapoint.Name d \<noteq> nm" using None Cons.prems(3) by auto
    have b: "\<forall>nm m. ?M nm = Some m \<longrightarrow> m < Suc n"
      by (rule bound_fresh [OF Cons.prems(1)])
    have i: "inj_on ?M (dom ?M)"
      by (rule inj_on_fresh [OF Cons.prems(1,2)])
    have k: "?M nm = Some m" using ne Cons.prems(3) by simp
    have "m < n" using Cons.prems(1,3) by blast
    then have "n \<noteq> m" by simp
    show ?thesis by (simp add: Cons.IH [of ?M "Suc n", OF b i k] None ne \<open>n \<noteq> m\<close>)
  next
    case (Some m')
    have "m' = m \<longleftrightarrow> Datapoint.Name d = nm"
    proof
      assume "m' = m"
      then have "metrics (Datapoint.Name d) = metrics nm" using Some Cons.prems(3) by simp
      moreover have "Datapoint.Name d \<in> dom metrics" "nm \<in> dom metrics"
        using Some Cons.prems(3) by auto
      ultimately show "Datapoint.Name d = nm" using Cons.prems(2) by (auto dest: inj_onD)
    next
      assume "Datapoint.Name d = nm"
      then show "m' = m" using Some Cons.prems(3) by simp
    qed
    with Cons.IH [OF Cons.prems] Some show ?thesis by auto
  qed
qed

lemma loop_new:
  "(\<forall>nm m. metrics nm = Some m \<longrightarrow> m < n) \<Longrightarrow> inj_on metrics (dom metrics) \<Longrightarrow>
   metrics nm = None \<Longrightarrow>
     (if nm \<in> Datapoint.Name ` set ch
      then \<exists>m. created_for (processDatatype_loop metrics n ch) nm = [m] \<and>
               names_of (processDatatype_loop metrics n ch) m = [nm] \<and>
               starts_of (processDatatype_loop metrics n ch) m = 1 \<and>
               updates_of (processDatatype_loop metrics n ch) m = values_for ch nm
      else created_for (processDatatype_loop metrics n ch) nm = [])"
proof (induction ch arbitrary: metrics n)
  case Nil
  then show ?case by simp
next
  case (Cons d ch)
  show ?case
  proof (cases "metrics (Datapoint.Name d)")
    case None
    let ?M = "metrics(Datapoint.Name d \<mapsto> n)"
    have b: "\<forall>nm m. ?M nm = Some m \<longrightarrow> m < Suc n"
      by (rule bound_fresh [OF Cons.prems(1)])
    have i: "inj_on ?M (dom ?M)"
      by (rule inj_on_fresh [OF Cons.prems(1,2)])
    show ?thesis
    proof (cases "Datapoint.Name d = nm")
      case True
      have k: "?M nm = Some n" using True by simp
      have f: "names_of (processDatatype_loop ?M (Suc n) ch) n = [] \<and>
               starts_of (processDatatype_loop ?M (Suc n) ch) n = 0"
        by (simp add: loop_fresh [of ?M "Suc n" n ch, OF b])
      show ?thesis
        using loop_known [of ?M "Suc n" nm n ch, OF b i k] f None
        unfolding True [symmetric] by simp
    next
      case False
      have k: "?M nm = None" using False Cons.prems(3) by simp
      show ?thesis
      proof (cases "nm \<in> Datapoint.Name ` set ch")
        case True
        with Cons.IH [of ?M "Suc n", OF b i k] obtain m where m:
          "created_for (processDatatype_loop ?M (Suc n) ch) nm = [m]"
          "names_of (processDatatype_loop ?M (Suc n) ch) m = [nm]"
          "starts_of (processDatatype_loop ?M (Suc n) ch) m = 1"
          "updates_of (processDatatype_loop ?M (Suc n) ch) m = values_for ch nm"
          by auto
        have "m \<noteq> n"
        proof
          assume "m = n"
          with m(2) loop_fresh [of ?M "Suc n" n ch, OF b] show False by simp
        qed
        show ?thesis by (simp add: m None False True \<open>m \<noteq> n\<close> \<open>m \<noteq> n\<close> [symmetric])
      next
        case F: False
        with False show ?thesis by (simp add: Cons.IH [of ?M "Suc n", OF b i k] None F)
      qed
    qed
  next
    case (Some m')
    then have ne: "Datapoint.Name d \<noteq> nm" using Cons.prems(3) by auto
    show ?thesis
    proof (cases "nm \<in> Datapoint.Name ` set ch")
      case True
      with Cons.IH [OF Cons.prems] obtain m where m:
        "created_for (processDatatype_loop metrics n ch) nm = [m]"
        "names_of (processDatatype_loop metrics n ch) m = [nm]"
        "starts_of (processDatatype_loop metrics n ch) m = 1"
        "updates_of (processDatatype_loop metrics n ch) m = values_for ch nm"
        by auto
      have "m' < n" using Some Cons.prems(1) by blast
      have "m \<noteq> m'"
      proof
        assume "m = m'"
        with m(2) loop_fresh [OF Cons.prems(1) \<open>m' < n\<close>, of ch] show False by simp
      qed
      show ?thesis by (simp add: m Some ne True \<open>m \<noteq> m'\<close> \<open>m \<noteq> m'\<close> [symmetric])
    next
      case False
      with Cons.IH [OF Cons.prems] Some ne show ?thesis by simp
    qed
  qed
qed

lemma processDatatype_loop_append:
  "\<exists>rest. processDatatype_loop metrics n (ch @ later) = processDatatype_loop metrics n ch @ rest"
proof (induction ch arbitrary: metrics n)
  case Nil
  then show ?case by simp
next
  case (Cons d ch)
  show ?case
  proof (cases "metrics (Datapoint.Name d)")
    case None
    from Cons.IH [of "metrics(Datapoint.Name d \<mapsto> n)" "Suc n"] obtain rest where
      "processDatatype_loop (metrics(Datapoint.Name d \<mapsto> n)) (Suc n) (ch @ later) =
       processDatatype_loop (metrics(Datapoint.Name d \<mapsto> n)) (Suc n) ch @ rest" ..
    then show ?thesis by (simp add: None)
  next
    case (Some m)
    from Cons.IH [of metrics n] obtain rest where
      "processDatatype_loop metrics n (ch @ later) = processDatatype_loop metrics n ch @ rest" ..
    then show ?thesis by (simp add: Some)
  qed
qed

text \<open>
  C10. In \<^verbatim>\<open>processDatatype\<close>, for every sequence of Datapoints drained from the channel
  and every name: when no Datapoint of the sequence bears the name, no Metric was made
  for it; when one does, exactly one Metric object \<open>m\<close> was made for the name, \<open>m\<close> was
  made for that name only, \<^verbatim>\<open>Start\<close> was called on \<open>m\<close> exactly once, and the \<^verbatim>\<open>Update\<close>
  calls on \<open>m\<close> are, in order, the values of the Datapoints of that name, the first one
  included. The calls made for a sequence begin with the calls made for any of its
  prefixes, so this holds at any time of the run.
\<close>

theorem processDatatype_one_metric_per_name:
  "(if nm \<in> Datapoint.Name ` set ch
    then \<exists>m. created_for (processDatatype ch) nm = [m] \<and>
             names_of (processDatatype ch) m = [nm] \<and>
             starts_of (processDatatype ch) m = 1 \<and>
             updates_of (processDatatype ch) m = values_for ch nm
    else created_for (processDatatype ch) nm = []) \<and>
   (\<exists>rest. processDatatype (ch @ later) = processDatatype ch @ rest)"
proof -
  have "(if nm \<in> Datapoint.Name ` set ch
    then \<exists>m. created_for (processDatatype_loop Map.empty 0 ch) nm = [m] \<and>
             names_of (processDatatype_loop Map.empty 0 ch) m = [nm] \<and>
             starts_of (processDatatype_loop Map.empty 0 ch) m = 1 \<and>
             updates_of (processDatatype_loop Map.empty 0 ch) m = values_for ch nm
    else created_for (processDatatype_loop Map.empty 0 ch) nm = [])"
    by (rule loop_new) simp_all
  moreover have "\<exists>rest. processDatatype (ch @ later) = processDatatype ch @ rest"
    unfolding processDatatype_def by (rule processDatatype_loop_append)
  ultimately show ?thesis
    unfolding processDatatype_def by simp
qed


theorem processDatatype_one_metric_per_name_witness:
  "processDatatype
     [\<lparr>Datapoint.Timestamp = 0, Name = ''a'', Value = 1::int, Datatype = ''c''\<rparr>,
      \<lparr>Datapoint.Timestamp = 0, Name = ''b'', Value = 2, Datatype = ''c''\<rparr>,
      \<lparr>Datapoint.Timestamp = 1, Name = ''a'', Value = 3, Datatype = ''c''\<rparr>] =
     [Creator 0 ''a'', Start 0, Update 0 1, Creator 1 ''b'', Start 1, Update 1 2, Update 0 3] \<and>
   (\<exists>m. created_for (processDatatype
           [\<lparr>Datapoint.Timestamp = 0, Name = ''a'', Value = 1::int, Datatype = ''c''\<rparr>,
            \<lparr>Datapoint.Timestamp = 0, Name = ''b'', Value = 2, Datatype = ''c''\<rparr>,
            \<lparr>Datapoint.Timestamp = 1, Name = ''a'', Value = 3, Datatype = ''c''\<rparr>]) ''a'' = [m] \<and>
        updates_of (processDatatype
           [\<lparr>Datapoint.Timestamp = 0, Name = ''a'', Value = 1::int, Datatype = ''c''\<rparr>,
            \<lparr>Datapoint.Timestamp = 0, Name = ''b'', Value = 2, Datatype = ''c''\<rparr>,
            \<lparr>Datapoint.Timestamp = 1, Name = ''a'', Value = 3, Datatype = ''c''\<rparr>]) m = [1, 3])"
proof -
  have run: "processDatatype
     [\<lparr>Datapoint.Timestamp = 0, Name = ''a'', Value = 1::int, Datatype = ''c''\<rparr>,
      \<lparr>Datapoint.Timestamp = 0, Name = ''b'', Value = 2, Datatype = ''c''\<rparr>,
      \<lparr>Datapoint.Timestamp = 1, Name = ''a'', Value = 3, Datatype = ''c''\<rparr>] =
     [Creator 0 ''a'', Start 0, Update 0 1, Creator 1 ''b'', Start 1, Update 1 2, Update 0 3]"
    by (simp add: processDatatype_def)
  show ?thesis
    using processDatatype_one_metric_per_name [of "''a''"
        "[\<lparr>Datapoint.Timestamp = 0, Name = ''a'', Value = 1::int, Datatype = ''c''\<rparr>,
          \<lparr>Datapoint.Timestamp = 0, Name = ''b'', Value = 2, Datatype = ''c''\<rparr>,
          \<lparr>Datapoint.Timestamp = 1, Name = ''a'', Value = 3, Datatype = ''c''\<rparr>]" "[]"]
    unfolding run by simp
qed

lemma slotCycle_mod:
  assumes "0 < slots"
  shows "slotCycle slots (int n mod slots) (int (n + k) mod slots) n k"
proof -
  let ?c = "int n mod slots"
  have r: "0 \<le> ?c" "?c < slots" using assms by simp_all
  have e: "int (n + k) mod slots = (?c + int k) mod slots"
    by (simp add: mod_add_left_eq)
  have one: "(?c + 1) mod slots = (if ?c + 1 = slots then 0 else ?c + 1)"
    using r by auto
  have full: "int k = slots \<Longrightarrow> (?c + int k) mod slots = ?c"
    using r by simp
  have part: "(?c + int k) mod slots \<noteq> ?c" if k: "0 < k" "int k < slots"
  proof
    assume eq: "(?c + int k) mod slots = ?c"
    show False
    proof (cases "?c + int k < slots")
      case True
      with r(1) have "(?c + int k) mod slots = ?c + int k"
        by (intro mod_pos_pos_trivial) simp_all
      with eq k(1) show False by simp
    next
      case False
      have "(?c + int k - slots) mod slots = ?c + int k - slots"
      proof (rule mod_pos_pos_trivial)
        show "0 \<le> ?c + int k - slots" using False by linarith
        show "?c + int k - slots < slots" using r(2) k(2) by linarith
      qed
      moreover have "(?c + int k - slots) mod slots = (?c + int k) mod slots"
        by simp
      ultimately show False using eq k(2) by simp
    qed
  qed
  show ?thesis
    unfolding slotCycle_def e using r one full part by auto
qed

lemma engineRun_append:
  "engineRun hash acc z emits retentions (evs @ evs') =
     (case engineRun hash acc z emits retentions evs of
        Inl e \<Rightarrow> Inl e
      | Inr (st, out) \<Rightarrow>
          (case engineLoop (engineStep hash acc z emits retentions) st evs' of
             Inl e \<Rightarrow> Inl e
           | Inr (st', out') \<Rightarrow> Inr (st', out @ out')))"
  by (simp add: engineRun_def engineLoop_append split: sum.splits)

lemma engineRun_slot:
  assumes pos: "list_all (\<lambda>interval. 0 < interval) retentions" and P: "\<And>d old. P (acc d old)"
    and run: "engineRun hash acc z emits retentions evs = Inr (st, out)"
    and i: "i < length retentions"
  shows "currentSlots st ! i = int (ticks evs) mod retentions ! i"
proof -
  from run have l: "engineLoop (engineStep hash acc z emits retentions) (initState retentions) evs =
      Inr (st, out)"
    by (simp add: engineRun_def engineInit_ok(1) [OF pos])
  from engineLoop_slot [where acc = acc and P = P, OF engineInit_ok(2) [OF pos] P l i]
  show ?thesis using i by (simp add: initState_def)
qed

lemma engineRun_slotCycle:
  assumes pos: "list_all (\<lambda>interval. 0 < interval) retentions" and P: "\<And>d old. P (acc d old)"
    and i: "i < length retentions"
  shows "\<exists>st out st' out'.
     engineRun hash acc z emits retentions events = Inr (st, out) \<and>
     engineRun hash acc z emits retentions (events @ later) = Inr (st', out') \<and>
     maxSlots st ! i = retentions ! i \<and>
     slotCycle (maxSlots st ! i) (currentSlots st ! i) (currentSlots st' ! i)
       (ticks events) (ticks later)"
proof -
  from engineRun_inv [where acc = acc and P = P and hash = hash and z = z and emits = emits
      and evs = events, OF pos P]
  obtain st out where r: "engineRun hash acc z emits retentions events = Inr (st, out)"
    and inv: "engine_inv hash P retentions st" by blast
  from engineRun_inv [where acc = acc and P = P and hash = hash and z = z and emits = emits
      and evs = "events @ later", OF pos P]
  obtain st' out' where r': "engineRun hash acc z emits retentions (events @ later) = Inr (st', out')"
    by blast
  have p: "0 < retentions ! i" by (rule wf_engineD(1) [OF inv i])
  have c: "currentSlots st ! i = int (ticks events) mod retentions ! i"
    by (rule engineRun_slot [where acc = acc and P = P, OF pos P r i])
  have c': "currentSlots st' ! i = int (ticks events + ticks later) mod retentions ! i"
    using engineRun_slot [where acc = acc and P = P, OF pos P r' i] by simp
  have m: "maxSlots st ! i = retentions ! i" by (rule wf_engineD(6) [OF inv i])
  from slotCycle_mod [OF p, of "ticks events" "ticks later"] r r' m c c'
  show ?thesis by auto
qed

text \<open>
  C6. For the counter engine and the timer engine, over retentions whose intervals are
  all positive, and for every retention \<open>i\<close>: the engine runs without a panic; the wheel
  has \<open>interval[i]\<close> slots; the pointer is 0 before any heartbeat and after \<open>n\<close>
  heartbeats it is \<open>n mod slots[i]\<close>, whatever datapoints arrive in between. So it is
  always inside the wheel, a heartbeat advances it by exactly one and wraps it to 0 after
  the last slot, it is back at its value after exactly \<open>slots[i]\<close> further heartbeats, and
  after fewer (and at least one) it is at a different slot: every slot is visited once
  before any is visited again.
\<close>

theorem slot_pointer_cycles:
  assumes pos: "list_all (\<lambda>interval. 0 < interval) retentions" and i: "i < length retentions"
  shows "(\<exists>st out st' out'.
            processCounters hash fmtFloat retentions events = Inr (st, out) \<and>
            processCounters hash fmtFloat retentions (events @ later) = Inr (st', out') \<and>
            maxSlots st ! i = retentions ! i \<and>
            slotCycle (maxSlots st ! i) (currentSlots st ! i) (currentSlots st' ! i)
              (ticks events) (ticks later)) \<and>
         (\<exists>st out st' out'.
            processTimers hash fmtFloat' shared retentions tevents = Inr (st, out) \<and>
            processTimers hash fmtFloat' shared retentions (tevents @ tlater) = Inr (st', out') \<and>
            maxSlots st ! i = retentions ! i \<and>
            slotCycle (maxSlots st ! i) (currentSlots st ! i) (currentSlots st' ! i)
              (ticks tevents) (ticks tlater))"
proof
  from engineRun_slotCycle [where acc = counterAcc and P = "\<lambda>v. True" and z = 0
      and emits = counterEmits and hash = hash and events = events and later = later, OF pos _ i]
  show "\<exists>st out st' out'.
            processCounters hash fmtFloat retentions events = Inr (st, out) \<and>
            processCounters hash fmtFloat retentions (events @ later) = Inr (st', out') \<and>
            maxSlots st ! i = retentions ! i \<and>
            slotCycle (maxSlots st ! i) (currentSlots st ! i) (currentSlots st' ! i)
              (ticks events) (ticks later)"
    by (auto simp: processCounters_engineRun)
  from engineRun_slotCycle [where acc = timerAcc and P = "\<lambda>v. True" and z = "[]"
      and emits = timerEmits and hash = hash and events = tevents and later = tlater, OF pos _ i]
  show "\<exists>st out st' out'.
            processTimers hash fmtFloat' shared retentions tevents = Inr (st, out) \<and>
            processTimers hash fmtFloat' shared retentions (tevents @ tlater) = Inr (st', out') \<and>
            maxSlots st ! i = retentions ! i \<and>
            slotCycle (maxSlots st ! i) (currentSlots st ! i) (currentSlots st' ! i)
              (ticks tevents) (ticks tlater)"
    by (auto simp: processTimers_engineRun)
qed

theorem slot_pointer_cycles_witness:
  "list_all (\<lambda>interval. 0 < interval) [2, 3 :: int] \<and> (1 :: nat) < length [2, 3 :: int] \<and>
   (\<exists>st out st' out'.
      processCounters (\<lambda>name. 0) (\<lambda>v :: int. ''v'') [2, 3] [Heartbeat (\<lambda>i. (7, 7))] = Inr (st, out) \<and>
      processCounters (\<lambda>name. 0) (\<lambda>v :: int. ''v'') [2, 3]
        ([Heartbeat (\<lambda>i. (7, 7))] @
         [Heartbeat (\<lambda>i. (8, 8)), Heartbeat (\<lambda>i. (9, 9)), Heartbeat (\<lambda>i. (10, 10))]) =
        Inr (st', out') \<and>
      maxSlots st ! 1 = 3 \<and> currentSlots st ! 1 = 1 \<and> currentSlots st' ! 1 = 1)"
proof -
  have h: "list_all (\<lambda>interval. 0 < interval) [2, 3 :: int]" "(1 :: nat) < length [2, 3 :: int]"
    by simp_all
  from slot_pointer_cycles [where hash = "\<lambda>name. 0" and fmtFloat = "\<lambda>v :: int. ''v''"
      and events = "[Heartbeat (\<lambda>i. (7, 7))]"
      and later = "[Heartbeat (\<lambda>i. (8, 8)), Heartbeat (\<lambda>i. (9, 9)), Heartbeat (\<lambda>i. (10, 10))]"
      and tevents = "[] :: int event list" and tlater = "[]"
      and fmtFloat' = "\<lambda>v :: int. ''v''" and shared = undefined, OF h]
  obtain st out st' out' where
    "processCounters (\<lambda>name. 0) (\<lambda>v :: int. ''v'') [2, 3] [Heartbeat (\<lambda>i. (7, 7))] = Inr (st, out)"
    "processCounters (\<lambda>name. 0) (\<lambda>v :: int. ''v'') [2, 3]
        ([Heartbeat (\<lambda>i. (7, 7))] @
         [Heartbeat (\<lambda>i. (8, 8)), Heartbeat (\<lambda>i. (9, 9)), Heartbeat (\<lambda>i. (10, 10))]) =
        Inr (st', out')"
    "maxSlots st ! 1 = [2, 3] ! 1"
    "slotCycle (maxSlots st ! 1) (currentSlots st ! 1) (currentSlots st' ! 1)
       (ticks [Heartbeat (\<lambda>i. (7, 7)) :: int event])
       (ticks [Heartbeat (\<lambda>i. (8, 8)) :: int event, Heartbeat (\<lambda>i. (9, 9)), Heartbeat (\<lambda>i. (10, 10))])"
    by blast
  then show ?thesis
    using h by (auto simp: slotCycle_def)
qed

lemma processCounters_reaches:
  assumes pos: "list_all (\<lambda>interval. 0 < interval) retentions"
    and run: "processCounters hash fmtFloat retentions events = Inr (st, out)"
  shows "engine_inv hash (\<lambda>v. True) retentions st"
proof -
  from run obtain flushed where
    "engineRun hash counterAcc 0 counterEmits retentions events = Inr (st, flushed)"
    by (auto simp: processCounters_engineRun split: sum.splits)
  from engineRun_reaches [where acc = counterAcc and P = "\<lambda>v. True", OF pos _ this]
  show ?thesis by simp
qed

lemma processTimers_reaches:
  assumes pos: "list_all (\<lambda>interval. 0 < interval) retentions"
    and run: "processTimers hash fmtFloat shared retentions events = Inr (st, out)"
  shows "engine_inv hash (\<lambda>vs. vs \<noteq> []) retentions st"
proof -
  from run obtain flushed where
    "engineRun hash timerAcc [] timerEmits retentions events = Inr (st, flushed)"
    by (auto simp: processTimers_engineRun split: sum.splits)
  from engineRun_reaches [where acc = timerAcc and P = "\<lambda>vs. vs \<noteq> []", OF pos _ this]
  show ?thesis by (simp add: timerAcc_def)
qed

lemma processCounters_step_Heartbeat:
  assumes "engine_inv hash P retentions st"
  shows "processCounters_step hash fmtFloat retentions st (Heartbeat clock) =
     Inr (tickState counterEmits retentions st,
          map (counterObservation fmtFloat retentions)
            (concat (map (tickFlushed counterEmits retentions st clock) [0..<length retentions])))"
  by (simp add: processCounters_step_def
      engineStep_Heartbeat [where acc = counterAcc and z = 0 and emits = counterEmits, OF assms])

lemma processTimers_step_Heartbeat:
  assumes "engine_inv hash P retentions st"
  shows "processTimers_step hash fmtFloat shared retentions st (Heartbeat clock) =
     Inr (tickState timerEmits retentions st,
          map (timerObservation fmtFloat shared retentions)
            (concat (map (tickFlushed timerEmits retentions st clock) [0..<length retentions])))"
  by (simp add: processTimers_step_def
      engineStep_Heartbeat [where acc = timerAcc and z = "[]" and emits = timerEmits, OF assms])

text \<open>
  What a heartbeat of the counter engine sends in a state the engine has reached, over
  retentions whose intervals are all positive: one observation for each \<open>(name, sum)\<close> of
  the current slot's bucket of each retention with \<open>sum > 0\<close>, and none for any other pair;
  to the recent (redis) channel under \<open>counters:<name>\<close> with the payload \<open><ts><X><sum>\<close> for
  retention 0, to the historical (disk) channel under \<open>counters:<name>:<interval>\<close> with
  the payload \<open><ts> <sum>\<close> and a newline otherwise. The timestamp is the first clock
  reading of the iteration less the remainder of the second one; when both readings are
  the same second \<open>t \<ge> 0\<close>, that is \<open>floor(t / interval) * interval\<close> (\<open>stampOf_floor\<close>).
\<close>

lemma processCounters_heartbeat_sends:
  assumes pos: "list_all (\<lambda>interval. 0 < interval) retentions"
    and run: "processCounters hash fmtFloat retentions events = Inr (st, out)"
  shows "\<exists>st' sends.
     processCounters_step hash fmtFloat retentions st (Heartbeat clock) = Inr (st', sends) \<and>
     mset sends =
       mset (concat (map (\<lambda>i.
         map (\<lambda>(name, sum).
           let timestamp = stampOf (clock i) (retentions ! i)
           in if i = 0
              then ToRedis \<lparr>AggregateObservation.Name = ''counters:'' @ name,
                            Content = showInt timestamp @ ''<X>'' @ fmtFloat sum,
                            Timestamp = timestamp\<rparr>
              else ToDisk \<lparr>AggregateObservation.Name =
                             ''counters:'' @ name @ '':'' @ showInt (retentions ! i),
                           Content = showInt timestamp @ '' '' @ fmtFloat sum @ ''\<newline>'',
                           Timestamp = timestamp\<rparr>)
           (filter (\<lambda>(name, sum). 0 < sum) (currentBucket st i)))
         [0..<length retentions]))"
proof -
  let ?obs = "\<lambda>i. \<lambda>(name, sum).
           let timestamp = stampOf (clock i) (retentions ! i)
           in if i = 0
              then ToRedis \<lparr>AggregateObservation.Name = ''counters:'' @ name,
                            Content = showInt timestamp @ ''<X>'' @ fmtFloat sum,
                            Timestamp = timestamp\<rparr>
              else ToDisk \<lparr>AggregateObservation.Name =
                             ''counters:'' @ name @ '':'' @ showInt (retentions ! i),
                           Content = showInt timestamp @ '' '' @ fmtFloat sum @ ''\<newline>'',
                           Timestamp = timestamp\<rparr>"
  have inv: "engine_inv hash (\<lambda>v. True) retentions st"
    by (rule processCounters_reaches [OF pos run])
  have per: "map (counterObservation fmtFloat retentions)
               (tickFlushed counterEmits retentions st clock i) =
             map (?obs i) (filter (\<lambda>(name, sum). 0 < sum) (currentBucket st i))" for i
    by (simp add: tickFlushed_def counterObservation_def counterEmits_def split_def Let_def)
  have "map (\<lambda>i. map (counterObservation fmtFloat retentions)
                  (tickFlushed counterEmits retentions st clock i)) [0..<length retentions] =
        map (\<lambda>i. map (?obs i) (filter (\<lambda>(name, sum). 0 < sum) (currentBucket st i)))
          [0..<length retentions]"
    by (rule map_cong [OF refl]) (simp add: per)
  then have sends: "map (counterObservation fmtFloat retentions)
       (concat (map (tickFlushed counterEmits retentions st clock) [0..<length retentions])) =
     concat (map (\<lambda>i. map (?obs i) (filter (\<lambda>(name, sum). 0 < sum) (currentBucket st i)))
               [0..<length retentions])"
    by (simp only: map_concat map_map o_def)
  have step: "processCounters_step hash fmtFloat retentions st (Heartbeat clock) =
     Inr (tickState counterEmits retentions st,
          concat (map (\<lambda>i. map (?obs i) (filter (\<lambda>(name, sum). 0 < sum) (currentBucket st i)))
                    [0..<length retentions]))"
    by (simp only: processCounters_step_Heartbeat [OF inv] sends)
  show ?thesis
    by (intro exI conjI) (rule step, rule refl)
qed

text \<open>
  C2, at a heartbeat whose iteration reads two different seconds from the clock. Line 281
  computes the timestamp as \<^verbatim>\<open>time.Now().Unix() - (time.Now().Unix() % Interval)\<close>, with two
  calls of \<^verbatim>\<open>time.Now()\<close>. One retention of 10 seconds, the counter \<open>a\<close> with the sum 1 in
  the current slot, and a tick at which the first call returns second 99 and the next one
  second 100: the observation emitted for \<open>a\<close> has the timestamp \<open>99 - 100 % 10 = 99\<close>,
  which is neither \<open>floor(99 / 10) * 10 = 90\<close> nor \<open>floor(100 / 10) * 10 = 100\<close> and no
  multiple of the interval. Likewise the readings 100 and 101 and the interval 3 give 98.
\<close>

theorem processCounters_timestamp_reads_clock_twice:
  "processCounters (hashTo 0) showWhole64 [10]
     [Recv \<lparr>Datapoint.Timestamp = 99, Name = ''a'', Value = ofInt 1, Datatype = ''c''\<rparr>,
      Heartbeat (\<lambda>i. (99, 100))] =
     Inr (\<lparr>currentSlots = [1], maxSlots = [10], wheels = [replicate 10 []]\<rparr>,
          [ToRedis \<lparr>AggregateObservation.Name = ''counters:a'', Content = ''99<X>1'',
                    Timestamp = 99\<rparr>]) \<and>
   alignedTimestamp (99, 100) 10 = Inr 99 \<and>
   (99 :: int) div 10 * 10 = 90 \<and> (100 :: int) div 10 * 10 = 100 \<and>
   alignedTimestamp (100, 101) 3 = Inr 98 \<and>
   (100 :: int) div 3 * 3 = 99 \<and> (101 :: int) div 3 * 3 = 99"
proof -
  have run: "processCounters (hashTo 0) showWhole64 [10]
     [Recv \<lparr>Datapoint.Timestamp = 99, Name = ''a'', Value = ofInt 1, Datatype = ''c''\<rparr>,
      Heartbeat (\<lambda>i. (99, 100))] =
     Inr (\<lparr>currentSlots = [1], maxSlots = [10], wheels = [replicate 10 []]\<rparr>,
          [ToRedis \<lparr>AggregateObservation.Name = ''counters:a'', Content = ''99<X>1'',
                    Timestamp = 99\<rparr>])"
    by code_simp
  have stamps: "alignedTimestamp (99, 100) 10 = Inr 99" "alignedTimestamp (100, 101) 3 = Inr 98"
    by (simp_all add: alignedTimestamp_def go_rem_def)
  have floors: "(99 :: int) div 10 * 10 = 90" "(100 :: int) div 10 * 10 = 100"
    "(100 :: int) div 3 * 3 = 99" "(101 :: int) div 3 * 3 = 99"
    by simp_all
  show ?thesis
    by (intro conjI run stamps floors)
qed

lemmas engine_eval =
  processCounters_def processTimers_def processCounters_step_def processTimers_step_def
  engineInit_def heartbeatInterval_def engineStep_def engineData_def wheelData_def go_rem_def
  bucketLookup_def counterAcc_def counterEmits_def timerAcc_def timerEmits_def
  engineHeartbeat_def wheelFlush_def alignedTimestamp_def counterObservation_def
  timerObservation_def upt_rec showInt_def showNat.simps digitChar_def

lemma processCounters_ticks:
  assumes pos: "list_all (\<lambda>interval. 0 < interval) retentions"
    and run: "processCounters hash fmtFloat retentions events = Inr (st, out)"
    and i: "i < length retentions"
  shows "currentSlots st ! i = int (ticks events) mod retentions ! i"
proof -
  from run obtain flushed where
    "engineRun hash counterAcc 0 counterEmits retentions events = Inr (st, flushed)"
    by (auto simp: processCounters_engineRun split: sum.splits)
  from engineRun_slot [where acc = counterAcc and P = "\<lambda>v. True", OF pos _ this i]
  show ?thesis by simp
qed




lemma tickState_vacated:
  assumes inv: "engine_inv hash P retentions st" and i: "i < length retentions"
  shows "currentSlots (tickState emits retentions st) ! i =
           (if currentSlots st ! i + 1 = maxSlots st ! i then 0 else currentSlots st ! i + 1)"
    and "wheels (tickState emits retentions st) ! i ! nat (currentSlots st ! i) =
           filter (\<lambda>(key, v). \<not> emits v) (currentBucket st i)"
proof -
  show "currentSlots (tickState emits retentions st) ! i =
           (if currentSlots st ! i + 1 = maxSlots st ! i then 0 else currentSlots st ! i + 1)"
    using i wf_engineD(6) [OF inv i] by (simp add: tickState_def nextSlot_def)
  show "wheels (tickState emits retentions st) ! i ! nat (currentSlots st ! i) =
           filter (\<lambda>(key, v). \<not> emits v) (currentBucket st i)"
    using i wf_engineD(5) [OF inv i] by (simp add: tickState_def)
qed

text \<open>
  C4, as the code has it. For the counter and the timer engine, over retentions whose
  intervals are all positive, and every retention: the heartbeat flush of a reached state
  advances the slot pointer and leaves in the vacated slot's bucket map exactly the
  entries it did not emit. In the counter engine these are the entries whose sum is not
  greater than 0, which stay with their sum; every entry with a positive sum is removed.
  In the timer engine every stored sample list is non-empty, so every entry is emitted
  and removed and the vacated bucket map is empty.
\<close>

theorem heartbeat_removes_flushed_entries:
  assumes pos: "list_all (\<lambda>interval. 0 < interval) retentions" and i: "i < length retentions"
    and crun: "processCounters hash fmtFloat retentions events = Inr (st, out)"
    and trun: "processTimers hash fmtFloat' shared retentions tevents = Inr (tst, tout)"
  shows "(\<exists>st' sends.
            processCounters_step hash fmtFloat retentions st (Heartbeat clock) = Inr (st', sends) \<and>
            currentSlots st' ! i =
              (if currentSlots st ! i + 1 = maxSlots st ! i then 0 else currentSlots st ! i + 1) \<and>
            wheels st' ! i ! nat (currentSlots st ! i) =
              filter (\<lambda>(name, sum). \<not> 0 < sum) (currentBucket st i)) \<and>
         (\<exists>st' sends.
            processTimers_step hash fmtFloat' shared retentions tst (Heartbeat tclock) =
              Inr (st', sends) \<and>
            currentSlots st' ! i =
              (if currentSlots tst ! i + 1 = maxSlots tst ! i then 0 else currentSlots tst ! i + 1) \<and>
            wheels st' ! i ! nat (currentSlots tst ! i) = [])"
proof
  have inv: "engine_inv hash (\<lambda>v. True) retentions st"
    by (rule processCounters_reaches [OF pos crun])
  from tickState_vacated [OF inv i, of counterEmits]
  have "currentSlots (tickState counterEmits retentions st) ! i =
          (if currentSlots st ! i + 1 = maxSlots st ! i then 0 else currentSlots st ! i + 1)"
    "wheels (tickState counterEmits retentions st) ! i ! nat (currentSlots st ! i) =
          filter (\<lambda>(name, sum). \<not> 0 < sum) (currentBucket st i)"
    by (simp_all add: counterEmits_def)
  with processCounters_step_Heartbeat [OF inv, of fmtFloat clock]
  show "\<exists>st' sends.
            processCounters_step hash fmtFloat retentions st (Heartbeat clock) = Inr (st', sends) \<and>
            currentSlots st' ! i =
              (if currentSlots st ! i + 1 = maxSlots st ! i then 0 else currentSlots st ! i + 1) \<and>
            wheels st' ! i ! nat (currentSlots st ! i) =
              filter (\<lambda>(name, sum). \<not> 0 < sum) (currentBucket st i)"
    by (intro exI conjI)
next
  have inv: "engine_inv hash (\<lambda>vs. vs \<noteq> []) retentions tst"
    by (rule processTimers_reaches [OF pos trun])
  have lt: "nat (currentSlots tst ! i) < nat (retentions ! i)"
    using wf_engineD(2,3) [OF inv i] by simp
  have "filter (\<lambda>(key, vs). \<not> timerEmits vs) (currentBucket tst i) = []"
    using engine_inv_entry(2) [OF inv i lt]
    by (auto simp: filter_empty_conv currentBucket_def timerEmits_def)
  with tickState_vacated [OF inv i, of timerEmits]
  have "currentSlots (tickState timerEmits retentions tst) ! i =
          (if currentSlots tst ! i + 1 = maxSlots tst ! i then 0 else currentSlots tst ! i + 1)"
    "wheels (tickState timerEmits retentions tst) ! i ! nat (currentSlots tst ! i) = []"
    by simp_all
  with processTimers_step_Heartbeat [OF inv, of fmtFloat' shared tclock]
  show "\<exists>st' sends.
            processTimers_step hash fmtFloat' shared retentions tst (Heartbeat tclock) =
              Inr (st', sends) \<and>
            currentSlots st' ! i =
              (if currentSlots tst ! i + 1 = maxSlots tst ! i then 0 else currentSlots tst ! i + 1) \<and>
            wheels st' ! i ! nat (currentSlots tst ! i) = []"
    by (intro exI conjI)
qed

lemma spec_percentile_index_less: "0 < n \<Longrightarrow> spec_percentile_index n p < n"
  by (simp add: spec_percentile_index_def nat_less_iff)

theorem heartbeat_removes_flushed_entries_witness:
  "processCounters (hashTo 7) showInt [1]
     [Recv \<lparr>Datapoint.Timestamp = 100, Name = ''a'', Value = 0, Datatype = ''c''\<rparr>,
      Recv \<lparr>Datapoint.Timestamp = 100, Name = ''b'', Value = 2, Datatype = ''c''\<rparr>] =
     Inr (\<lparr>currentSlots = [0], maxSlots = [1], wheels = [[[(''a'', 0), (''b'', 2)]]]\<rparr>, []) \<and>
   processTimers (hashTo 7) showWhole spec_stats [1]
     [Recv \<lparr>Datapoint.Timestamp = 100, Name = ''lat'', Value = 10, Datatype = ''ms''\<rparr>] =
     Inr (\<lparr>currentSlots = [0], maxSlots = [1], wheels = [[[(''lat'', [10])]]]\<rparr>, []) \<and>
   (\<exists>st' sends.
      processCounters_step (hashTo 7) showInt [1]
        \<lparr>currentSlots = [0], maxSlots = [1], wheels = [[[(''a'', 0), (''b'', 2)]]]\<rparr>
        (Heartbeat (clockAt 100)) = Inr (st', sends) \<and>
      currentSlots st' ! 0 = 0 \<and> wheels st' ! 0 ! 0 = [(''a'', 0)]) \<and>
   (\<exists>st' sends.
      processTimers_step (hashTo 7) showWhole spec_stats [1]
        \<lparr>currentSlots = [0], maxSlots = [1], wheels = [[[(''lat'', [10])]]]\<rparr>
        (Heartbeat (clockAt 100)) = Inr (st', sends) \<and>
      currentSlots st' ! 0 = 0 \<and> wheels st' ! 0 ! 0 = [])"
proof -
  have pos: "list_all (\<lambda>interval. 0 < interval) [1 :: int]" and i: "(0 :: nat) < length [1 :: int]"
    by simp_all
  have crun: "processCounters (hashTo 7) showInt [1]
     [Recv \<lparr>Datapoint.Timestamp = 100, Name = ''a'', Value = 0, Datatype = ''c''\<rparr>,
      Recv \<lparr>Datapoint.Timestamp = 100, Name = ''b'', Value = 2, Datatype = ''c''\<rparr>] =
     Inr (\<lparr>currentSlots = [0], maxSlots = [1], wheels = [[[(''a'', 0), (''b'', 2)]]]\<rparr>, [])"
    by code_simp
  have trun: "processTimers (hashTo 7) showWhole spec_stats [1]
     [Recv \<lparr>Datapoint.Timestamp = 100, Name = ''lat'', Value = 10, Datatype = ''ms''\<rparr>] =
     Inr (\<lparr>currentSlots = [0], maxSlots = [1], wheels = [[[(''lat'', [10])]]]\<rparr>, [])"
    by (simp add: engine_eval eval_nat_numeral hashTo_def)
  from heartbeat_removes_flushed_entries [OF pos i crun trun, of "clockAt 100" "clockAt 100"]
  have "(\<exists>st' sends.
      processCounters_step (hashTo 7) showInt [1]
        \<lparr>currentSlots = [0], maxSlots = [1], wheels = [[[(''a'', 0), (''b'', 2)]]]\<rparr>
        (Heartbeat (clockAt 100)) = Inr (st', sends) \<and>
      currentSlots st' ! 0 = 0 \<and> wheels st' ! 0 ! 0 = [(''a'', 0)]) \<and>
   (\<exists>st' sends.
      processTimers_step (hashTo 7) showWhole spec_stats [1]
        \<lparr>currentSlots = [0], maxSlots = [1], wheels = [[[(''lat'', [10])]]]\<rparr>
        (Heartbeat (clockAt 100)) = Inr (st', sends) \<and>
      currentSlots st' ! 0 = 0 \<and> wheels st' ! 0 ! 0 = [])"
    by (simp add: currentBucket_def)
  with crun trun show ?thesis by (intro conjI) simp_all
qed

text \<open>
  Against C4 as stated: one retention of 1 second, so one slot, and the datapoint
  \<open>a:0|c\<close>. After the heartbeat has flushed the slot and the pointer has advanced (back to
  slot 0), the bucket map of the vacated slot still holds the key \<open>a\<close> with its sum 0: the
  \<^verbatim>\<open>delete\<close> of line 291 is inside the test \<^verbatim>\<open>value > 0\<close>.
\<close>

theorem counter_bucket_not_emptied_counterexample:
  "processCounters (hashTo 7) showInt [1]
     [Recv \<lparr>Datapoint.Timestamp = 100, Name = ''a'', Value = 0, Datatype = ''c''\<rparr>,
      Heartbeat (clockAt 100)] =
     Inr (\<lparr>currentSlots = [0], maxSlots = [1], wheels = [[[(''a'', 0)]]]\<rparr>, [])"
  by code_simp

lemma timerAggregates_spec_stats:
  "timerAggregates fmtFloat spec_stats S =
     showInt (int (length S)) @ ''/'' @
     fmtFloat (Min (set S)) @ ''/'' @
     fmtFloat (Max (set S)) @ ''/'' @
     fmtFloat (if odd (length S) then sort S ! (length S div 2)
               else (sort S ! (length S div 2 - 1) + sort S ! (length S div 2)) / 2) @ ''/'' @
     fmtFloat (sum_list S / real (length S)) @ ''/'' @
     fmtFloat (sqrt (sum_list (map (\<lambda>x. (x - sum_list S / real (length S))\<^sup>2) S) /
                     real (length S))) @ ''/'' @
     fmtFloat (sort S ! nat (max 0 (min (int (length S) - 1)
                               (\<lceil>0.9 * real (length S)\<rceil> - 1)))) @ ''/'' @
     fmtFloat (sort S ! nat (max 0 (min (int (length S) - 1)
                               (\<lceil>0.95 * real (length S)\<rceil> - 1)))) @ ''/'' @
     fmtFloat (sort S ! nat (max 0 (min (int (length S) - 1)
                               (\<lceil>0.99 * real (length S)\<rceil> - 1))))"
  by (simp add: timerAggregates_def spec_stats_def spec_percentile_index_def Let_def)

lemma tickFlushed_timers:
  assumes inv: "engine_inv hash (\<lambda>vs. vs \<noteq> []) retentions st" and i: "i < length retentions"
  shows "tickFlushed timerEmits retentions st clock i =
         map (\<lambda>(key, S). (i, stampOf (clock i) (retentions ! i), key, S)) (currentBucket st i)"
    and "\<forall>(key, S) \<in> set (currentBucket st i). S \<noteq> []"
proof -
  have lt: "nat (currentSlots st ! i) < nat (retentions ! i)"
    using wf_engineD(2,3) [OF inv i] by simp
  show ne: "\<forall>(key, S) \<in> set (currentBucket st i). S \<noteq> []"
    using engine_inv_entry(2) [OF inv i lt] by (auto simp: currentBucket_def)
  then have "filter (\<lambda>(key, vs). timerEmits vs) (currentBucket st i) = currentBucket st i"
    by (auto simp: filter_id_conv timerEmits_def)
  then show "tickFlushed timerEmits retentions st clock i =
         map (\<lambda>(key, S). (i, stampOf (clock i) (retentions ! i), key, S)) (currentBucket st i)"
    by (simp add: tickFlushed_def)
qed

text \<open>
  C5. With the statistics of package \<^verbatim>\<open>shared\<close> as the spec defines them, over retentions
  whose intervals are all positive: on a heartbeat in a state the timer engine has
  reached, every sample list \<open>S\<close> of the current slot's bucket of every retention is
  non-empty and is flushed, and the sends of the tick are, one for each entry
  \<open>(key, S)\<close>, the observation whose payload carries after the timestamp the aggregate
  string \<open>count/min/max/median/mean/stddev/p90/p95/p99\<close> computed over \<open>S\<close>: nine numbers
  printed in this order with a slash between them, where the median is the middle element
  of the sorted list for an odd count and the mean of the two middle elements for an even
  one, the standard deviation is \<open>sqrt(sum((x - mean)^2) / n)\<close>, and the percentiles are the
  elements of the sorted list at the index \<open>ceil(p * n) - 1\<close> clamped to \<open>[0, n - 1]\<close>, for
  \<open>p\<close> = 0.9, 0.95 and 0.99; every index is inside the list. The payload is
  \<open><ts><X><aggregates>\<close> on the recent channel for retention 0, \<open><ts> <aggregates>\<close> and a
  newline on the historical channel otherwise. The sends are stated as a multiset: the
  order in which a bucket map is ranged over is open.
\<close>

theorem processTimers_heartbeat_aggregates:
  assumes pos: "list_all (\<lambda>interval. 0 < interval) retentions"
    and run: "processTimers hash fmtFloat spec_stats retentions events = Inr (st, out)"
  shows "\<exists>st' sends.
     processTimers_step hash fmtFloat spec_stats retentions st (Heartbeat clock) =
       Inr (st', sends) \<and>
     mset sends =
       mset (concat (map (\<lambda>i.
         map (\<lambda>(key, S).
           let timestamp = stampOf (clock i) (retentions ! i);
               aggregates =
                 showInt (int (length S)) @ ''/'' @
                 fmtFloat (Min (set S)) @ ''/'' @
                 fmtFloat (Max (set S)) @ ''/'' @
                 fmtFloat (if odd (length S) then sort S ! (length S div 2)
                           else (sort S ! (length S div 2 - 1) + sort S ! (length S div 2)) / 2) @
                 ''/'' @
                 fmtFloat (sum_list S / real (length S)) @ ''/'' @
                 fmtFloat (sqrt (sum_list (map (\<lambda>x. (x - sum_list S / real (length S))\<^sup>2) S) /
                                 real (length S))) @ ''/'' @
                 fmtFloat (sort S ! nat (max 0 (min (int (length S) - 1)
                                           (\<lceil>0.9 * real (length S)\<rceil> - 1)))) @ ''/'' @
                 fmtFloat (sort S ! nat (max 0 (min (int (length S) - 1)
                                           (\<lceil>0.95 * real (length S)\<rceil> - 1)))) @ ''/'' @
                 fmtFloat (sort S ! nat (max 0 (min (int (length S) - 1)
                                           (\<lceil>0.99 * real (length S)\<rceil> - 1))))
           in if i = 0
              then ToRedis \<lparr>AggregateObservation.Name = ''timers:'' @ key,
                            Content = showInt timestamp @ ''<X>'' @ aggregates,
                            Timestamp = timestamp\<rparr>
              else ToDisk \<lparr>AggregateObservation.Name =
                             ''timers:'' @ key @ '':'' @ showInt (retentions ! i),
                           Content = showInt timestamp @ '' '' @ aggregates @ ''\<newline>'',
                           Timestamp = timestamp\<rparr>)
           (currentBucket st i))
         [0..<length retentions])) \<and>
     (\<forall>i < length retentions. \<forall>(key, S) \<in> set (currentBucket st i).
        S \<noteq> [] \<and> length S div 2 < length S \<and>
        nat (max 0 (min (int (length S) - 1) (\<lceil>0.9 * real (length S)\<rceil> - 1))) < length S \<and>
        nat (max 0 (min (int (length S) - 1) (\<lceil>0.95 * real (length S)\<rceil> - 1))) < length S \<and>
        nat (max 0 (min (int (length S) - 1) (\<lceil>0.99 * real (length S)\<rceil> - 1))) < length S)"
proof -
  let ?obs = "\<lambda>i. \<lambda>(key, S).
           let timestamp = stampOf (clock i) (retentions ! i);
               aggregates =
                 showInt (int (length S)) @ ''/'' @
                 fmtFloat (Min (set S)) @ ''/'' @
                 fmtFloat (Max (set S)) @ ''/'' @
                 fmtFloat (if odd (length S) then sort S ! (length S div 2)
                           else (sort S ! (length S div 2 - 1) + sort S ! (length S div 2)) / 2) @
                 ''/'' @
                 fmtFloat (sum_list S / real (length S)) @ ''/'' @
                 fmtFloat (sqrt (sum_list (map (\<lambda>x. (x - sum_list S / real (length S))\<^sup>2) S) /
                                 real (length S))) @ ''/'' @
                 fmtFloat (sort S ! nat (max 0 (min (int (length S) - 1)
                                           (\<lceil>0.9 * real (length S)\<rceil> - 1)))) @ ''/'' @
                 fmtFloat (sort S ! nat (max 0 (min (int (length S) - 1)
                                           (\<lceil>0.95 * real (length S)\<rceil> - 1)))) @ ''/'' @
                 fmtFloat (sort S ! nat (max 0 (min (int (length S) - 1)
                                           (\<lceil>0.99 * real (length S)\<rceil> - 1))))
           in if i = 0
              then ToRedis \<lparr>AggregateObservation.Name = ''timers:'' @ key,
                            Content = showInt timestamp @ ''<X>'' @ aggregates,
                            Timestamp = timestamp\<rparr>
              else ToDisk \<lparr>AggregateObservation.Name =
                             ''timers:'' @ key @ '':'' @ showInt (retentions ! i),
                           Content = showInt timestamp @ '' '' @ aggregates @ ''\<newline>'',
                           Timestamp = timestamp\<rparr>"
  have inv: "engine_inv hash (\<lambda>vs. vs \<noteq> []) retentions st"
    by (rule processTimers_reaches [OF pos run])
  have per: "map (timerObservation fmtFloat spec_stats retentions)
               (tickFlushed timerEmits retentions st clock i) =
             map (?obs i) (currentBucket st i)" if i: "i < length retentions" for i
    unfolding tickFlushed_timers(1) [OF inv i]
    by (simp add: timerObservation_def timerAggregates_spec_stats Let_def split_def)
  have "map (\<lambda>i. map (timerObservation fmtFloat spec_stats retentions)
                  (tickFlushed timerEmits retentions st clock i)) [0..<length retentions] =
        map (\<lambda>i. map (?obs i) (currentBucket st i)) [0..<length retentions]"
    by (rule map_cong [OF refl]) (simp add: per)
  then have sends: "map (timerObservation fmtFloat spec_stats retentions)
       (concat (map (tickFlushed timerEmits retentions st clock) [0..<length retentions])) =
     concat (map (\<lambda>i. map (?obs i) (currentBucket st i)) [0..<length retentions])"
    by (simp only: map_concat map_map o_def)
  have idx: "S \<noteq> [] \<and> length S div 2 < length S \<and>
        nat (max 0 (min (int (length S) - 1) (\<lceil>0.9 * real (length S)\<rceil> - 1))) < length S \<and>
        nat (max 0 (min (int (length S) - 1) (\<lceil>0.95 * real (length S)\<rceil> - 1))) < length S \<and>
        nat (max 0 (min (int (length S) - 1) (\<lceil>0.99 * real (length S)\<rceil> - 1))) < length S"
    if i: "i < length retentions" and m: "(key, S) \<in> set (currentBucket st i)" for i key S
  proof -
    from tickFlushed_timers(2) [OF inv i] m have ne: "S \<noteq> []" by auto
    then have n: "0 < length S" by simp
    have p: "nat (max 0 (min (int (length S) - 1) (\<lceil>p * real (length S)\<rceil> - 1))) < length S" for p
      using spec_percentile_index_less [OF n, of p] by (simp add: spec_percentile_index_def)
    from n have half: "length S div 2 < length S" by simp
    show ?thesis
      by (intro conjI ne half p)
  qed
  have bounds: "\<forall>i < length retentions. \<forall>(key, S) \<in> set (currentBucket st i).
        S \<noteq> [] \<and> length S div 2 < length S \<and>
        nat (max 0 (min (int (length S) - 1) (\<lceil>0.9 * real (length S)\<rceil> - 1))) < length S \<and>
        nat (max 0 (min (int (length S) - 1) (\<lceil>0.95 * real (length S)\<rceil> - 1))) < length S \<and>
        nat (max 0 (min (int (length S) - 1) (\<lceil>0.99 * real (length S)\<rceil> - 1))) < length S"
    using idx by blast
  have step: "processTimers_step hash fmtFloat spec_stats retentions st (Heartbeat clock) =
     Inr (tickState timerEmits retentions st,
          concat (map (\<lambda>i. map (?obs i) (currentBucket st i)) [0..<length retentions]))"
    by (simp only: processTimers_step_Heartbeat [OF inv] sends)
  show ?thesis
    by (intro exI conjI) (rule step, rule refl, rule bounds)
qed


theorem processTimers_heartbeat_aggregates_witness:
  "processTimers (hashTo 0) showWhole spec_stats [2, 3]
     [Recv \<lparr>Datapoint.Timestamp = 100, Name = ''lat'', Value = 1, Datatype = ''ms''\<rparr>,
      Recv \<lparr>Datapoint.Timestamp = 100, Name = ''lat'', Value = 3, Datatype = ''ms''\<rparr>] =
     Inr (\<lparr>currentSlots = [0, 0], maxSlots = [2, 3],
           wheels = [[[(''lat'', [1, 3])], []], [[(''lat'', [1, 3])], [], []]]\<rparr>, []) \<and>
   (\<exists>st' sends.
      processTimers_step (hashTo 0) showWhole spec_stats [2, 3]
        \<lparr>currentSlots = [0, 0], maxSlots = [2, 3],
         wheels = [[[(''lat'', [1, 3])], []], [[(''lat'', [1, 3])], [], []]]\<rparr>
        (Heartbeat (clockAt 100)) = Inr (st', sends) \<and>
      mset sends =
        {#ToRedis \<lparr>AggregateObservation.Name = ''timers:lat'',
                   Content = ''100<X>2/1/3/2/2/1/3/3/3'', Timestamp = 100\<rparr>,
          ToDisk \<lparr>AggregateObservation.Name = ''timers:lat:3'',
                  Content = ''99 2/1/3/2/2/1/3/3/3\<newline>'', Timestamp = 99\<rparr>#})"
proof -
  have pos: "list_all (\<lambda>interval. 0 < interval) [2, 3 :: int]" by simp
  have run: "processTimers (hashTo 0) showWhole spec_stats [2, 3]
     [Recv \<lparr>Datapoint.Timestamp = 100, Name = ''lat'', Value = 1, Datatype = ''ms''\<rparr>,
      Recv \<lparr>Datapoint.Timestamp = 100, Name = ''lat'', Value = 3, Datatype = ''ms''\<rparr>] =
     Inr (\<lparr>currentSlots = [0, 0], maxSlots = [2, 3],
           wheels = [[[(''lat'', [1, 3])], []], [[(''lat'', [1, 3])], [], []]]\<rparr>, [])"
    by (simp add: engine_eval eval_nat_numeral hashTo_def)
  have c90: "\<lceil>(9 :: real) / 5\<rceil> = 2" and c95: "\<lceil>(19 :: real) / 10\<rceil> = 2"
    and c99: "\<lceil>(99 :: real) / 50\<rceil> = 2"
    by (simp_all add: ceiling_eq_iff)
  from processTimers_heartbeat_aggregates [OF pos run, of "clockAt 100"]
  obtain st' sends where
    "processTimers_step (hashTo 0) showWhole spec_stats [2, 3]
        \<lparr>currentSlots = [0, 0], maxSlots = [2, 3],
         wheels = [[[(''lat'', [1, 3])], []], [[(''lat'', [1, 3])], [], []]]\<rparr>
        (Heartbeat (clockAt 100)) = Inr (st', sends)"
    "mset sends =
        {#ToRedis \<lparr>AggregateObservation.Name = ''timers:lat'',
                   Content = ''100<X>2/1/3/2/2/1/3/3/3'', Timestamp = 100\<rparr>,
          ToDisk \<lparr>AggregateObservation.Name = ''timers:lat:3'',
                  Content = ''99 2/1/3/2/2/1/3/3/3\<newline>'', Timestamp = 99\<rparr>#}"
    by (auto simp: currentBucket_def upt_rec stampOf_def clockAt_def showWhole_def showInt_def
        showNat.simps digitChar_def c90 c95 c99 power2_eq_square Let_def)
  then have "\<exists>st' sends.
      processTimers_step (hashTo 0) showWhole spec_stats [2, 3]
        \<lparr>currentSlots = [0, 0], maxSlots = [2, 3],
         wheels = [[[(''lat'', [1, 3])], []], [[(''lat'', [1, 3])], [], []]]\<rparr>
        (Heartbeat (clockAt 100)) = Inr (st', sends) \<and>
      mset sends =
        {#ToRedis \<lparr>AggregateObservation.Name = ''timers:lat'',
                   Content = ''100<X>2/1/3/2/2/1/3/3/3'', Timestamp = 100\<rparr>,
          ToDisk \<lparr>AggregateObservation.Name = ''timers:lat:3'',
                  Content = ''99 2/1/3/2/2/1/3/3/3\<newline>'', Timestamp = 99\<rparr>#}"
    by (intro exI conjI)
  with run show ?thesis by (intro conjI)
qed

lemma filter_key_distinct:
  "distinct (map fst b) \<Longrightarrow>
   filter (\<lambda>(k, v). k = name) b = (case map_of b name of None \<Rightarrow> [] | Some v \<Rightarrow> [(name, v)])"
proof (induction b)
  case Nil
  then show ?case by simp
next
  case (Cons e b)
  obtain k v where e: "e = (k, v)" by (cases e)
  show ?case
  proof (cases "k = name")
    case True
    with Cons.prems e have "name \<notin> fst ` set b" by simp
    then have "filter (\<lambda>(k, v). k = name) b = []"
      by (force simp: filter_empty_conv)
    with True e show ?thesis by simp
  next
    case False
    with Cons e show ?thesis by simp
  qed
qed

lemma map_of_filter_distinct:
  "distinct (map fst b) \<Longrightarrow>
   map_of (filter (\<lambda>(k, v). Q v) b) name =
     (case map_of b name of None \<Rightarrow> None | Some v \<Rightarrow> if Q v then Some v else None)"
proof (induction b)
  case Nil
  then show ?case by simp
next
  case (Cons e b)
  obtain k v where e: "e = (k, v)" by (cases e)
  show ?case
  proof (cases "k = name")
    case True
    with Cons.prems e have "name \<notin> fst ` set b" by simp
    then have "map_of b name = None" by (simp add: map_of_eq_None_iff)
    moreover have "map_of (filter (\<lambda>(k, v). Q v) b) name = None"
      using \<open>name \<notin> fst ` set b\<close> by (auto simp: map_of_eq_None_iff)
    ultimately show ?thesis using True e by simp
  next
    case False
    with Cons e show ?thesis by simp
  qed
qed

lemma concat_map_only:
  "distinct xs \<Longrightarrow> i \<in> set xs \<Longrightarrow> (\<And>j. j \<in> set xs \<Longrightarrow> j \<noteq> i \<Longrightarrow> f j = []) \<Longrightarrow>
   concat (map f xs) = f i"
proof (induction xs)
  case Nil
  then show ?case by simp
next
  case (Cons x xs)
  show ?case
  proof (cases "x = i")
    case True
    with Cons.prems(1) have "\<And>j. j \<in> set xs \<Longrightarrow> j \<noteq> i" by auto
    with Cons.prems(3) have "\<And>j. j \<in> set xs \<Longrightarrow> f j = []" by simp
    then have "concat (map f xs) = []" by simp
    with True show ?thesis by simp
  next
    case False
    with Cons.prems have "i \<in> set xs" "f x = []" "distinct xs" by auto
    with Cons.IH Cons.prems(3) show ?thesis by simp
  qed
qed

lemma bucketLookup_update:
  "bucketLookup z (AList.update k x b) name = (if name = k then x else bucketLookup z b name)"
  by (simp add: bucketLookup_def update_conv')

lemma held_data:
  assumes inv: "engine_inv hash P retentions st" and i: "i < length retentions"
  shows "held hash retentions (dataState hash (counterAcc d) 0 retentions st key) i name =
         (if key = name then held hash retentions st i name + d
          else held hash retentions st i name)"
proof -
  let ?h = "slotOf hash name (retentions ! i)"
  let ?k = "slotOf hash key (retentions ! i)"
  let ?w = "wheels st ! i"
  have hl: "?h < length ?w"
    using slotOf_less [OF wf_engineD(1) [OF inv i], of hash name] wf_engineD(4) [OF inv i]
    by simp
  have w: "wheels (dataState hash (counterAcc d) 0 retentions st key) ! i =
           putWheel hash (counterAcc d) 0 key (retentions ! i) ?w"
    using i by (simp add: dataState_def)
  have new: "wheels (dataState hash (counterAcc d) 0 retentions st key) ! i ! ?h =
             (if ?h = ?k
              then AList.update key (counterAcc d (bucketLookup 0 (?w ! ?k) key)) (?w ! ?k)
              else ?w ! ?h)"
  proof (cases "?h = ?k")
    case True
    then show ?thesis unfolding w putWheel_def using hl by simp
  next
    case False
    then show ?thesis unfolding w putWheel_def by simp
  qed
  show ?thesis
  proof (cases "key = name")
    case True
    show ?thesis
      using new unfolding held_def True by (simp add: bucketLookup_update counterAcc_def)
  next
    case False
    show ?thesis
    proof (cases "?h = ?k")
      case T: True
      have "bucketLookup 0 (AList.update key (counterAcc d (bucketLookup 0 (?w ! ?k) key))
                              (?w ! ?k)) name =
            bucketLookup 0 (?w ! ?k) name"
        using False by (simp add: bucketLookup_update)
      then show ?thesis
        unfolding held_def new using False T by simp
    next
      case F: False
      show ?thesis
        unfolding held_def new using False F by simp
    qed
  qed
qed

subsection \<open>Conservation of counter sums\<close>

lemma receivedValues_simps [simp]:
  "receivedValues name [] = []"
  "receivedValues name (Recv d # events) =
     (if Datapoint.Name d = name then Value d # receivedValues name events
      else receivedValues name events)"
  "receivedValues name (Heartbeat clock # events) = receivedValues name events"
  "receivedValues name (events @ events') = receivedValues name events @ receivedValues name events'"
  by (simp_all add: receivedValues_def)

lemma emittedValues_simps [simp]:
  "emittedValues i name [] = []"
  "emittedValues i name (fl @ fl') = emittedValues i name fl @ emittedValues i name fl'"
  by (simp_all add: emittedValues_def)

lemma valueSum_simps [simp]:
  "valueSum [] = 0"
  "valueSum (v # vs) = valueOf v + valueSum vs"
  "valueSum (vs @ ws) = valueSum vs + valueSum ws"
  by (simp_all add: valueSum_def)

lemma valueOf_zero [simp]: "valueOf 0 = 0"
  by (simp add: valueOf_def zero_float64_def)

lemma emittedValues_tick:
  assumes inv: "engine_inv hash P retentions st" and i: "i < length retentions"
  shows "emittedValues i name
           (concat (map (tickFlushed emits retentions st clock) [0..<length retentions])) =
         (case map_of (currentBucket st i) name of
            None \<Rightarrow> []
          | Some v \<Rightarrow> if emits v then [v] else [])"
proof -
  let ?F = "\<lambda>(i', timestamp :: int, key, v :: 'a). i' = i \<and> key = name"
  have other: "filter ?F (tickFlushed emits retentions st clock j) = []" if "j \<noteq> i" for j
    using that by (auto simp: tickFlushed_def filter_empty_conv)
  have "filter ?F (concat (map (tickFlushed emits retentions st clock) [0..<length retentions])) =
        concat (map (\<lambda>j. filter ?F (tickFlushed emits retentions st clock j))
                  [0..<length retentions])"
    by (simp add: filter_concat o_def)
  also have "\<dots> = filter ?F (tickFlushed emits retentions st clock i)"
    by (rule concat_map_only) (use i other in simp_all)
  also have "\<dots> = map (\<lambda>(key, v). (i, stampOf (clock i) (retentions ! i), key, v))
                     (filter (\<lambda>(key, v). emits v)
                        (filter (\<lambda>(key, v). key = name) (currentBucket st i)))"
    by (simp add: tickFlushed_def filter_map o_def split_def conj_commute)
  finally have "emittedValues i name
           (concat (map (tickFlushed emits retentions st clock) [0..<length retentions])) =
        map snd (filter (\<lambda>(key, v). emits v)
                        (filter (\<lambda>(key, v). key = name) (currentBucket st i)))"
    by (simp add: emittedValues_def o_def split_def)
  then show ?thesis
    by (simp add: filter_key_distinct [OF wf_engineD(8) [OF inv i]] split: option.splits)
qed

lemma held_current:
  assumes inv: "engine_inv hash P retentions st" and i: "i < length retentions"
    and some: "map_of (currentBucket st i) name = Some v"
  shows "slotOf hash name (retentions ! i) = nat (currentSlots st ! i)"
    and "held hash retentions st i name = v"
proof -
  let ?c = "nat (currentSlots st ! i)"
  from some have "(name, v) \<in> set (wheels st ! i ! ?c)"
    by (auto simp: currentBucket_def dest: map_of_SomeD)
  moreover have "?c < nat (retentions ! i)"
    using wf_engineD(2,3) [OF inv i] by simp
  ultimately show h: "slotOf hash name (retentions ! i) = ?c"
    by (rule engine_inv_entry(1) [OF inv i, rotated])
  show "held hash retentions st i name = v"
    using some by (simp add: held_def h bucketLookup_def currentBucket_def)
qed

lemma held_tickState:
  assumes inv: "engine_inv hash P retentions st" and i: "i < length retentions"
  shows "held hash retentions (tickState emits retentions st) i name =
         (case map_of (currentBucket st i) name of
            None \<Rightarrow> held hash retentions st i name
          | Some v \<Rightarrow> if emits v then 0 else v)"
proof -
  let ?h = "slotOf hash name (retentions ! i)"
  let ?c = "nat (currentSlots st ! i)"
  have hl: "?h < length (wheels st ! i)"
    using slotOf_less [OF wf_engineD(1) [OF inv i], of hash name] wf_engineD(4) [OF inv i]
    by simp
  have w: "wheels (tickState emits retentions st) ! i =
           (wheels st ! i)[?c := filter (\<lambda>(key, v). \<not> emits v) (currentBucket st i)]"
    using i by (simp add: tickState_def)
  show ?thesis
  proof (cases "?c = ?h")
    case True
    have "held hash retentions (tickState emits retentions st) i name =
          bucketLookup 0 (filter (\<lambda>(key, v). \<not> emits v) (currentBucket st i)) name"
      using hl True by (simp add: held_def w)
    moreover have "held hash retentions st i name = bucketLookup 0 (currentBucket st i) name"
      using True by (simp add: held_def currentBucket_def)
    ultimately show ?thesis
      by (simp add: bucketLookup_def
          map_of_filter_distinct [OF wf_engineD(8) [OF inv i]] split: option.splits)
  next
    case False
    have none: "map_of (currentBucket st i) name = None"
    proof (cases "map_of (currentBucket st i) name")
      case (Some v)
      from held_current(1) [OF inv i Some] False show ?thesis by simp
    qed simp
    have "held hash retentions (tickState emits retentions st) i name =
          held hash retentions st i name"
      using hl False by (simp add: held_def w)
    then show ?thesis
      by (simp add: none)
  qed
qed

lemma conservation_tick:
  fixes st :: "float64 engine_state"
  assumes inv: "engine_inv hash P retentions st" and i: "i < length retentions"
  shows "valueSum (emittedValues i name
           (concat (map (tickFlushed emits retentions st clock) [0..<length retentions]))) +
         valueOf (held hash retentions (tickState emits retentions st) i name) =
         valueOf (held hash retentions st i name)"
proof (cases "map_of (currentBucket st i) name")
  case None
  then show ?thesis
    by (simp add: emittedValues_tick [OF inv i] held_tickState [OF inv i])
next
  case (Some v)
  from held_current(2) [OF inv i Some] Some show ?thesis
    by (simp add: emittedValues_tick [OF inv i] held_tickState [OF inv i])
qed

lemma exactAdd_valueOf: "exactAdd x y \<Longrightarrow> valueOf (x + y) = valueOf x + valueOf y"
  by (simp add: exactAdd_def)

lemma conservation_exact_step:
  fixes st :: "float64 engine_state"
  assumes inv: "engine_inv hash P retentions st" and i: "i < length retentions"
    and exact: "exactFrom hash retentions st [ev]"
    and step: "engineStep hash counterAcc 0 counterEmits retentions st ev = Inr (st', flushed)"
  shows "valueSum (emittedValues i name flushed) + valueOf (held hash retentions st' i name) =
         valueOf (held hash retentions st i name) + valueSum (receivedValues name [ev])"
proof (cases ev)
  case (Recv d)
  from step have st': "st' = dataState hash (counterAcc (Value d)) 0 retentions st (Datapoint.Name d)"
    and fl: "flushed = []"
    unfolding Recv engineStep_Recv [where acc = counterAcc and z = 0 and emits = counterEmits
        and d = d, OF inv]
    by simp_all
  from exact i have "exactAdd (held hash retentions st i (Datapoint.Name d)) (Value d)"
    by (simp add: Recv list_all_iff)
  from exactAdd_valueOf [OF this] show ?thesis
    by (auto simp: Recv st' fl held_data [OF inv i])
next
  case (Heartbeat clock)
  from step have "st' = tickState counterEmits retentions st"
    "flushed = concat (map (tickFlushed counterEmits retentions st clock) [0..<length retentions])"
    unfolding Heartbeat engineStep_Heartbeat [where acc = counterAcc and z = 0
        and emits = counterEmits and clock = clock, OF inv]
    by simp_all
  then show ?thesis
    by (simp add: Heartbeat conservation_tick [OF inv i])
qed

lemma exactFrom_Cons:
  assumes "exactFrom hash retentions st (ev # evs)"
    and "engineStep hash counterAcc 0 counterEmits retentions st ev = Inr (st1, f1)"
  shows "exactFrom hash retentions st [ev]" and "exactFrom hash retentions st1 evs"
  using assms by (simp_all split: event.splits)

lemma conservation_exact_loop:
  fixes st :: "float64 engine_state"
  assumes inv: "engine_inv hash (\<lambda>v. True) retentions st" and i: "i < length retentions"
    and exact: "exactFrom hash retentions st evs"
    and loop: "engineLoop (engineStep hash counterAcc 0 counterEmits retentions) st evs =
               Inr (st', flushed)"
  shows "valueSum (emittedValues i name flushed) + valueOf (held hash retentions st' i name) =
         valueOf (held hash retentions st i name) + valueSum (receivedValues name evs)"
  using inv exact loop
proof (induction evs arbitrary: st flushed)
  case Nil
  then show ?case by simp
next
  case (Cons ev evs)
  from engineStep_inv [where acc = counterAcc and z = 0 and emits = counterEmits and ev = ev
      and P = "\<lambda>v. True", OF Cons.prems(1)]
  obtain st1 f1 where
    s: "engineStep hash counterAcc 0 counterEmits retentions st ev = Inr (st1, f1)"
    and i1: "engine_inv hash (\<lambda>v. True) retentions st1" by auto
  from Cons.prems(3) s obtain f2 where
    l: "engineLoop (engineStep hash counterAcc 0 counterEmits retentions) st1 evs = Inr (st', f2)"
    and f: "flushed = f1 @ f2"
    by (auto split: sum.splits prod.splits)
  note e = exactFrom_Cons [OF Cons.prems(2) s]
  have a: "valueSum (emittedValues i name f1) + valueOf (held hash retentions st1 i name) =
        valueOf (held hash retentions st i name) + valueSum (receivedValues name [ev])"
    by (rule conservation_exact_step [OF Cons.prems(1) i e(1) s])
  have b: "valueSum (emittedValues i name f2) + valueOf (held hash retentions st' i name) =
        valueOf (held hash retentions st1 i name) + valueSum (receivedValues name evs)"
    by (rule Cons.IH [OF i1 e(2) l])
  have r: "valueSum (receivedValues name (ev # evs)) =
        valueSum (receivedValues name [ev]) + valueSum (receivedValues name evs)"
    using receivedValues_simps(4) [of name "[ev]" evs] by simp
  from a b show ?case
    unfolding r f by simp
qed

lemma held_nonneg_step:
  fixes st :: "float64 engine_state"
  assumes inv: "engine_inv hash P retentions st" and i: "i < length retentions"
    and exact: "exactFrom hash retentions st [ev]"
    and nn: "\<forall>d. ev = Recv d \<longrightarrow> 0 \<le> valueOf (Value d)"
    and h: "0 \<le> valueOf (held hash retentions st i name)"
    and step: "engineStep hash counterAcc 0 counterEmits retentions st ev = Inr (st', flushed)"
  shows "0 \<le> valueOf (held hash retentions st' i name)"
proof (cases ev)
  case (Recv d)
  from step have st': "st' = dataState hash (counterAcc (Value d)) 0 retentions st (Datapoint.Name d)"
    unfolding Recv engineStep_Recv [where acc = counterAcc and z = 0 and emits = counterEmits
        and d = d, OF inv]
    by simp
  from exact i have "exactAdd (held hash retentions st i (Datapoint.Name d)) (Value d)"
    by (simp add: Recv list_all_iff)
  from exactAdd_valueOf [OF this] nn h show ?thesis
    by (auto simp: Recv st' held_data [OF inv i])
next
  case (Heartbeat clock)
  from step have st': "st' = tickState counterEmits retentions st"
    unfolding Heartbeat engineStep_Heartbeat [where acc = counterAcc and z = 0
        and emits = counterEmits and clock = clock, OF inv]
    by simp
  show ?thesis
  proof (cases "map_of (currentBucket st i) name")
    case None
    with h show ?thesis by (simp add: st' held_tickState [OF inv i])
  next
    case (Some v)
    from held_current(2) [OF inv i Some] h Some show ?thesis
      by (simp add: st' held_tickState [OF inv i])
  qed
qed

lemma held_nonneg_loop:
  fixes st :: "float64 engine_state"
  assumes inv: "engine_inv hash (\<lambda>v. True) retentions st" and i: "i < length retentions"
    and exact: "exactFrom hash retentions st evs"
    and nn: "\<forall>d. Recv d \<in> set evs \<longrightarrow> 0 \<le> valueOf (Value d)"
    and h: "0 \<le> valueOf (held hash retentions st i name)"
    and loop: "engineLoop (engineStep hash counterAcc 0 counterEmits retentions) st evs =
               Inr (st', flushed)"
  shows "0 \<le> valueOf (held hash retentions st' i name)"
  using inv exact nn h loop
proof (induction evs arbitrary: st flushed)
  case Nil
  then show ?case by simp
next
  case (Cons ev evs)
  from engineStep_inv [where acc = counterAcc and z = 0 and emits = counterEmits and ev = ev
      and P = "\<lambda>v. True", OF Cons.prems(1)]
  obtain st1 f1 where
    s: "engineStep hash counterAcc 0 counterEmits retentions st ev = Inr (st1, f1)"
    and i1: "engine_inv hash (\<lambda>v. True) retentions st1" by auto
  from Cons.prems(5) s obtain f2 where
    l: "engineLoop (engineStep hash counterAcc 0 counterEmits retentions) st1 evs = Inr (st', f2)"
    by (auto split: sum.splits prod.splits)
  note e = exactFrom_Cons [OF Cons.prems(2) s]
  from Cons.prems(3) have n1: "\<forall>d. ev = Recv d \<longrightarrow> 0 \<le> valueOf (Value d)"
    and n2: "\<forall>d. Recv d \<in> set evs \<longrightarrow> 0 \<le> valueOf (Value d)" by auto
  have h1: "0 \<le> valueOf (held hash retentions st1 i name)"
    by (rule held_nonneg_step [OF Cons.prems(1) i e(1) n1 Cons.prems(4) s])
  show ?case
    by (rule Cons.IH [OF i1 e(2) n2 h1 l])
qed

lemma exactFrom_append:
  assumes "exactFrom hash retentions st (evs @ evs')"
    and "engineLoop (engineStep hash counterAcc 0 counterEmits retentions) st evs = Inr (st1, f1)"
  shows "exactFrom hash retentions st evs" and "exactFrom hash retentions st1 evs'"
  using assms
proof (induction evs arbitrary: st f1)
  case Nil
  { case 1 show ?case by simp }
  { case 2 then show ?case by simp }
next
  case (Cons ev evs)
  { case 1
    then show ?case
      by (auto split: sum.splits prod.splits event.splits dest: Cons.IH(1)) }
  { case 2
    then show ?case
      by (auto split: sum.splits prod.splits event.splits dest: Cons.IH(2)) }
qed

lemma held_initState: "held hash retentions (initState retentions) i name = 0"
  if "list_all (\<lambda>interval. 0 < interval) retentions" "i < length retentions"
proof -
  have "slotOf hash name (retentions ! i) < nat (retentions ! i)"
    using that by (intro slotOf_less) (simp add: list_all_length)
  then show ?thesis
    using that by (simp add: held_def initState_def bucketLookup_def)
qed


text \<open>
  The addition at some cases of IEEE 754: an overflow, a sum of subnormal numbers, the
  largest number plus half a unit of its last place and plus less than that, ties that go
  to the even significand, \<open>0.1 + 0.2\<close> (the \<^verbatim>\<open>float64\<close>s nearest to them), zeros, and the
  order.
\<close>

lemma float64_examples: "Finite 1 1023 + Finite 1 1023 = PosInf"
  "Finite 1 (-1074) + Finite 1 (-1074) = Finite 1 (-1073)"
  "Finite (2^53 - 1) 971 + Finite 1 970 = PosInf"
  "Finite (2^53 - 1) 971 + Finite 1 969 = Finite (2^53 - 1) 971"
  "Finite 1 0 + Finite 1 (-53) = Finite 1 0"
  "Finite 1 0 + Finite 3 (-54) = Finite (2^52 + 1) (-52)"
  "Finite (-1) 0 + Finite 1 0 = 0"
  "Finite 3602879701896397 (-55) + Finite 3602879701896397 (-54) = Finite 1351079888211149 (-52)"
  "Finite 0 5000 + Finite 0 0 = 0"
  "Finite 1 (-1074) + Finite (-1) (-1074) = 0"
  "(0 :: float64) \<le> 0" "Finite 2 0 \<le> Finite 1 1" "\<not> NaN \<le> NaN" "\<not> Finite 2 0 < Finite 1 1"
  "ofInt (-3) + ofInt 1 = ofInt (-2)" "ofInt (-3) < 0" "\<not> 0 < ofInt (-3)"
  by code_simp+


lemma bitlen_le: "0 \<le> n \<Longrightarrow> n < 2 ^ k \<Longrightarrow> bitlen n \<le> int k"
proof (induction k arbitrary: n)
  case 0
  then have "n = 0" by simp
  then show ?case by (simp add: bitlen.simps)
next
  case (Suc k)
  show ?case
  proof (cases "n \<le> 0")
    case True
    then show ?thesis by (simp add: bitlen.simps)
  next
    case False
    from Suc.prems have "0 \<le> n div 2" "n div 2 < 2 ^ k" by auto
    from Suc.IH [OF this] False show ?thesis
      by (subst bitlen.simps) simp
  qed
qed

lemma normalize64_whole:
  "0 \<le> m \<Longrightarrow> 0 \<le> e \<Longrightarrow> normalize64 m e = (m', e') \<Longrightarrow>
   0 \<le> m' \<and> 0 \<le> e' \<and> m' * 2 ^ nat e' = m * 2 ^ nat e"
proof (induction m e rule: normalize64.induct)
  case (1 m e)
  show ?case
  proof (cases "m = 0")
    case True
    with "1.prems" show ?thesis by (simp add: normalize64.simps)
  next
    case m: False
    show ?thesis
    proof (cases "even m")
      case True
      with m "1.prems" have n: "normalize64 (m div 2) (e + 1) = (m', e')"
        by (subst (asm) normalize64.simps) simp
      from "1.prems" have "0 \<le> m div 2" "0 \<le> e + 1" by simp_all
      from "1.IH" [OF m True this n]
      have r: "0 \<le> m'" "0 \<le> e'" "m' * 2 ^ nat e' = (m div 2) * 2 ^ nat (e + 1)" by simp_all
      from "1.prems" have "nat (e + 1) = Suc (nat e)" by simp
      with True have "(m div 2) * 2 ^ nat (e + 1) = m * 2 ^ nat e"
        by (auto elim: evenE)
      with r show ?thesis by simp
    next
      case False
      with m "1.prems" show ?thesis
        by (subst (asm) normalize64.simps) simp
    qed
  qed
qed

lemma valueOf_whole:
  "0 \<le> e \<Longrightarrow> valueOf (Finite m e) = of_int (m * 2 ^ nat e)"
  by (simp add: valueOf_def)

lemma finite64_whole:
  assumes "0 \<le> m" "0 \<le> e" "bitlen m + e \<le> 1024"
  shows "wholeNonneg (finite64 m e) \<and> valueOf (finite64 m e) = of_int (m * 2 ^ nat e)"
proof (cases "m = 0")
  case True
  then show ?thesis by (simp add: finite64_def wholeNonneg_def valueOf_def)
next
  case False
  obtain m' e' where n: "normalize64 m e = (m', e')" by (cases "normalize64 m e")
  from normalize64_whole [OF assms(1,2) n]
  have r: "0 \<le> m'" "0 \<le> e'" "m' * 2 ^ nat e' = m * 2 ^ nat e" by simp_all
  from False assms have "finite64 m e = Finite m' e'"
    by (simp add: finite64_def n)
  with r show ?thesis
    by (simp add: wholeNonneg_def valueOf_whole)
qed


lemma roundFloat64_whole:
  assumes m: "0 \<le> m" and e: "0 \<le> e" and le: "m * 2 ^ nat e \<le> 2 ^ 53"
  shows "wholeNonneg (roundFloat64 m e) \<and>
         valueOf (roundFloat64 m e) = of_int (m * 2 ^ nat e)"
proof (cases "m < 2 ^ 53")
  case True
  from bitlen_le [OF m True] have b: "bitlen m \<le> 53" by simp
  have d: "max (bitlen \<bar>m\<bar> - 53) (- 1074 - e) \<le> 0"
    using b m e by simp
  show ?thesis
  proof (cases "m = 0")
    case True
    then show ?thesis
      using e by (simp add: roundFloat64_def finite64_def wholeNonneg_def valueOf_def Let_def)
  next
    case False
    with m have "1 \<le> m" by simp
    then have "1 * (2 :: int) ^ nat e \<le> m * 2 ^ nat e"
      by (intro mult_right_mono) simp_all
    then have "(2 :: int) ^ nat e \<le> m * 2 ^ nat e" by simp
    from this le have "(2 :: int) ^ nat e \<le> 2 ^ 53" by (rule order_trans)
    then have "nat e \<le> 53"
      by (rule power_le_imp_le_exp [where a = "2 :: int", rotated]) simp
    with e b have "bitlen m + e \<le> 1024" by simp
    from finite64_whole [OF m e this] d show ?thesis
      by (simp add: roundFloat64_def Let_def)
  qed
next
  case False
  then have big: "2 ^ 53 \<le> m" by simp
  have "m * 1 \<le> m * 2 ^ nat e" using m by (intro mult_left_mono) simp_all
  then have "m \<le> m * 2 ^ nat e" by (simp only: mult_1_right)
  from this le big have m53: "m = 2 ^ 53" by linarith
  have e0: "e = 0"
  proof (rule ccontr)
    assume "e \<noteq> 0"
    with e have "1 \<le> nat e" by simp
    then have "(2 :: int) ^ 1 \<le> 2 ^ nat e" by (intro power_increasing) simp_all
    then have "m * 2 \<le> m * 2 ^ nat e" using m by (intro mult_left_mono) simp_all
    from this le have "m * 2 \<le> 2 ^ 53" by (rule order_trans)
    then show False unfolding m53 by simp
  qed
  have b: "bitlen (2 ^ 53) = 54" by code_simp
  have r: "roundFloat64 (2 ^ 53) 0 = Finite 1 53" by code_simp
  show ?thesis
    unfolding m53 e0 r by (simp add: wholeNonneg_def valueOf_def)
qed

lemma plus_whole:
  assumes x: "wholeNonneg x" and y: "wholeNonneg y"
    and le: "valueOf x + valueOf y \<le> 2 ^ 53"
  shows "exactAdd x y" and "wholeNonneg (x + y)"
proof -
  from x obtain m1 e1 where X: "x = Finite m1 e1" "0 \<le> m1" "0 \<le> e1"
    by (auto simp: wholeNonneg_def split: float64.splits)
  from y obtain m2 e2 where Y: "y = Finite m2 e2" "0 \<le> m2" "0 \<le> e2"
    by (auto simp: wholeNonneg_def split: float64.splits)
  let ?e = "min e1 e2"
  let ?M = "m1 * 2 ^ nat (e1 - ?e) + m2 * 2 ^ nat (e2 - ?e)"
  have e: "0 \<le> ?e" using X Y by simp
  have M: "0 \<le> ?M" using X Y by simp
  have p1: "(2 :: int) ^ nat (e1 - ?e) * 2 ^ nat ?e = 2 ^ nat e1"
    using X Y by (simp add: power_add [symmetric] nat_add_distrib [symmetric])
  have p2: "(2 :: int) ^ nat (e2 - ?e) * 2 ^ nat ?e = 2 ^ nat e2"
    using X Y by (simp add: power_add [symmetric] nat_add_distrib [symmetric])
  have sum: "?M * 2 ^ nat ?e = m1 * 2 ^ nat e1 + m2 * 2 ^ nat e2"
    by (simp only: distrib_right mult.assoc p1 p2)
  have vx: "valueOf x = of_int (m1 * 2 ^ nat e1)" and vy: "valueOf y = of_int (m2 * 2 ^ nat e2)"
    using X Y by (simp_all add: valueOf_whole)
  from le have "(of_int (m1 * 2 ^ nat e1 + m2 * 2 ^ nat e2) :: rat) \<le> of_int (2 ^ 53)"
    unfolding vx vy by simp
  then have "m1 * 2 ^ nat e1 + m2 * 2 ^ nat e2 \<le> 2 ^ 53"
    by (simp only: of_int_le_iff)
  then have "?M * 2 ^ nat ?e \<le> 2 ^ 53" by (simp only: sum)
  from roundFloat64_whole [OF M e this]
  have r: "wholeNonneg (roundFloat64 ?M ?e)"
    "valueOf (roundFloat64 ?M ?e) = of_int (?M * 2 ^ nat ?e)" by simp_all
  have pl: "x + y = roundFloat64 ?M ?e"
    by (simp add: X Y plus_float64_def Let_def)
  from r(1) show w: "wholeNonneg (x + y)" by (simp only: pl)
  have "valueOf (x + y) = valueOf x + valueOf y"
    unfolding pl r(2) sum vx vy by simp
  moreover have "isFinite x" "isFinite y" using X Y by (simp_all add: isFinite_def)
  moreover have "isFinite (x + y)"
    using w by (auto simp: wholeNonneg_def isFinite_def split: float64.splits)
  ultimately show "exactAdd x y" by (simp add: exactAdd_def)
qed

lemma valueOf_wholeNonneg: "wholeNonneg x \<Longrightarrow> 0 \<le> valueOf x"
  by (auto simp: wholeNonneg_def valueOf_def split: float64.splits)

lemma valueSum_nonneg: "\<forall>v \<in> set vs. wholeNonneg v \<Longrightarrow> 0 \<le> valueSum vs"
  by (induction vs) (auto simp: valueSum_def dest: valueOf_wholeNonneg intro: add_nonneg_nonneg)


lemma receivedValues_whole:
  "\<forall>d. Recv d \<in> set evs \<longrightarrow> wholeNonneg (Value d) \<Longrightarrow>
   \<forall>v \<in> set (receivedValues name evs). wholeNonneg v"
proof (induction evs)
  case Nil
  then show ?case by simp
next
  case (Cons ev evs)
  then show ?case by (cases ev) auto
qed

lemma wholeNonneg_zero [simp]: "wholeNonneg 0"
  by (simp add: wholeNonneg_def zero_float64_def)

lemma exactFrom_whole:
  fixes st :: "float64 engine_state"
  assumes inv: "engine_inv hash (\<lambda>v. True) retentions st"
    and vals: "\<forall>d. Recv d \<in> set evs \<longrightarrow> wholeNonneg (Value d)"
    and H: "\<forall>i < length retentions. \<forall>name.
              wholeNonneg (held hash retentions st i name) \<and>
              valueOf (held hash retentions st i name) + valueSum (receivedValues name evs)
                \<le> 2 ^ 53"
  shows "exactFrom hash retentions st evs"
  using inv vals H
proof (induction evs arbitrary: st)
  case Nil
  show ?case by simp
next
  case (Cons ev evs)
  from engineStep_inv [where acc = counterAcc and z = 0 and emits = counterEmits and ev = ev
      and P = "\<lambda>v. True", OF Cons.prems(1)]
  obtain st1 f1 where
    s: "engineStep hash counterAcc 0 counterEmits retentions st ev = Inr (st1, f1)"
    and i1: "engine_inv hash (\<lambda>v. True) retentions st1" by auto
  from Cons.prems(2) have vals': "\<forall>d. Recv d \<in> set evs \<longrightarrow> wholeNonneg (Value d)" by simp
  have rest: "0 \<le> valueSum (receivedValues name evs)" for name
    by (rule valueSum_nonneg [OF receivedValues_whole [OF vals']])
  show ?case
  proof (cases ev)
    case (Recv d)
    from Cons.prems(2) Recv have wd: "wholeNonneg (Value d)" by simp
    from s have st1: "st1 = dataState hash (counterAcc (Value d)) 0 retentions st (Datapoint.Name d)"
      unfolding Recv engineStep_Recv [where acc = counterAcc and z = 0 and emits = counterEmits
          and d = d, OF Cons.prems(1)]
      by simp
    have add: "exactAdd (held hash retentions st i (Datapoint.Name d)) (Value d) \<and>
               wholeNonneg (held hash retentions st i (Datapoint.Name d) + Value d)"
      if i: "i < length retentions" for i
    proof -
      from Cons.prems(3) i
      have w: "wholeNonneg (held hash retentions st i (Datapoint.Name d))"
        and b: "valueOf (held hash retentions st i (Datapoint.Name d)) +
                valueSum (receivedValues (Datapoint.Name d) (ev # evs)) \<le> 2 ^ 53"
        by blast+
      from b rest [of "Datapoint.Name d"]
      have "valueOf (held hash retentions st i (Datapoint.Name d)) + valueOf (Value d) \<le> 2 ^ 53"
        by (simp add: Recv)
      from plus_whole [OF w wd this] show ?thesis by simp
    qed
    have H1: "\<forall>i < length retentions. \<forall>name.
              wholeNonneg (held hash retentions st1 i name) \<and>
              valueOf (held hash retentions st1 i name) + valueSum (receivedValues name evs)
                \<le> 2 ^ 53"
    proof (intro allI impI)
      fix i name assume i: "i < length retentions"
      from Cons.prems(3) i
      have w: "wholeNonneg (held hash retentions st i name)"
        and b: "valueOf (held hash retentions st i name) +
                valueSum (receivedValues name (ev # evs)) \<le> 2 ^ 53"
        by blast+
      show "wholeNonneg (held hash retentions st1 i name) \<and>
            valueOf (held hash retentions st1 i name) + valueSum (receivedValues name evs)
              \<le> 2 ^ 53"
      proof (cases "Datapoint.Name d = name")
        case True
        from add [OF i] have e: "exactAdd (held hash retentions st i name) (Value d)"
          and w': "wholeNonneg (held hash retentions st i name + Value d)"
          unfolding True by simp_all
        from b exactAdd_valueOf [OF e] w' show ?thesis
          by (simp add: st1 held_data [OF Cons.prems(1) i] True Recv)
      next
        case False
        with b w show ?thesis
          by (simp add: st1 held_data [OF Cons.prems(1) i] Recv)
      qed
    qed
    from Cons.IH [OF i1 vals' H1] have "exactFrom hash retentions st1 evs" .
    with add s show ?thesis
      by (simp add: Recv list_all_iff)
  next
    case (Heartbeat clock)
    from s have st1: "st1 = tickState counterEmits retentions st"
      unfolding Heartbeat engineStep_Heartbeat [where acc = counterAcc and z = 0
          and emits = counterEmits and clock = clock, OF Cons.prems(1)]
      by simp
    have H1: "\<forall>i < length retentions. \<forall>name.
              wholeNonneg (held hash retentions st1 i name) \<and>
              valueOf (held hash retentions st1 i name) + valueSum (receivedValues name evs)
                \<le> 2 ^ 53"
    proof (intro allI impI)
      fix i name assume i: "i < length retentions"
      from Cons.prems(3) i
      have w: "wholeNonneg (held hash retentions st i name)"
        and b: "valueOf (held hash retentions st i name) +
                valueSum (receivedValues name evs) \<le> 2 ^ 53"
        by (auto simp: Heartbeat)
      show "wholeNonneg (held hash retentions st1 i name) \<and>
            valueOf (held hash retentions st1 i name) + valueSum (receivedValues name evs)
              \<le> 2 ^ 53"
      proof (cases "map_of (currentBucket st i) name")
        case None
        with w b show ?thesis
          by (simp add: st1 held_tickState [OF Cons.prems(1) i])
      next
        case (Some v)
        from held_current(2) [OF Cons.prems(1) i Some] have hv: "held hash retentions st i name = v" .
        from w have "0 \<le> valueOf (held hash retentions st i name)" by (rule valueOf_wholeNonneg)
        with w b hv Some show ?thesis
          by (auto simp: st1 held_tickState [OF Cons.prems(1) i])
      qed
    qed
    from Cons.IH [OF i1 vals' H1] have "exactFrom hash retentions st1 evs" .
    with s show ?thesis
      by (simp add: Heartbeat)
  qed
qed

text \<open>
  No addition rounds when every value received is a non-negative whole number and the
  values received for each name sum to \<open>2^53\<close> at most: then every sum the engine holds
  is a whole number up to \<open>2^53\<close>, and all of these are \<^verbatim>\<open>float64\<close>s.
\<close>

lemma addsExactly_whole:
  assumes pos: "list_all (\<lambda>interval. 0 < interval) retentions"
    and vals: "\<forall>d. Recv d \<in> set events \<longrightarrow> wholeNonneg (Value d)"
    and sums: "\<forall>name. valueSum (receivedValues name events) \<le> 2 ^ 53"
  shows "addsExactly hash retentions events"
proof -
  have inv0: "engine_inv hash (\<lambda>v :: float64. True) retentions (initState retentions)"
    by (rule engineInit_ok(2) [OF pos])
  have "\<forall>i < length retentions. \<forall>name.
          wholeNonneg (held hash retentions (initState retentions :: float64 engine_state) i name) \<and>
          valueOf (held hash retentions (initState retentions :: float64 engine_state) i name) +
            valueSum (receivedValues name events) \<le> 2 ^ 53"
    using sums by (simp add: held_initState [OF pos])
  from exactFrom_whole [OF inv0 vals this] show ?thesis
    by (simp add: addsExactly_def engineInit_ok(1) [OF pos])
qed





subsection \<open>The line parser and the dispatcher\<close>

lemma take1_eq: "take 1 s = [c] \<Longrightarrow> s = c # drop 1 s"
  by (cases s) simp_all

lemma take2_eq: "take 2 s = [c, d] \<Longrightarrow> s = c # d # drop 2 s"
  by (cases s; cases "tl s") (simp_all add: numeral_2_eq_2)

lemma matchType_Some:
  assumes "matchType s = Some t"
  shows "(t = ''c'' \<or> t = ''g'' \<or> t = ''ms'') \<and> (\<exists>post. s = t @ post)"
proof -
  from assms consider
      (c) "take 1 s = ''c''" "t = ''c''"
    | (g) "take 1 s = ''g''" "t = ''g''"
    | (ms) "take 2 s = ''ms''" "t = ''ms''"
    by (auto simp: matchType_def split: if_splits)
  then show ?thesis
  proof cases
    case c
    from take1_eq [OF c(1)] have "s = t @ drop 1 s" by (simp add: c(2))
    with c(2) show ?thesis by blast
  next
    case g
    from take1_eq [OF g(1)] have "s = t @ drop 1 s" by (simp add: g(2))
    with g(2) show ?thesis by blast
  next
    case ms
    from take2_eq [OF ms(1)] have "s = t @ drop 2 s" by (simp add: ms(2))
    with ms(2) show ?thesis by blast
  qed
qed

lemma matchType_complete:
  "t = ''c'' \<or> t = ''g'' \<or> t = ''ms'' \<Longrightarrow> matchType (t @ post) \<noteq> None"
  by (auto simp: matchType_def)

lemma matchValue_Some:
  assumes "matchValue n s = Some (v, t)"
  shows "\<exists>m post. 0 < m \<and> m \<le> n \<and> v = take m s \<and> length v = m \<and>
                  s = v @ ''|'' @ t @ post \<and> (t = ''c'' \<or> t = ''g'' \<or> t = ''ms'')"
  using assms
proof (induction n)
  case 0
  then show ?case by simp
next
  case (Suc n)
  show ?case
  proof (cases "take 1 (drop (Suc n) s) = ''|'' \<and> matchType (drop (Suc (Suc n)) s) \<noteq> None")
    case True
    then obtain t' where t': "matchType (drop (Suc (Suc n)) s) = Some t'" by auto
    with True Suc.prems have vt: "v = take (Suc n) s" "t = t'" by simp_all
    from matchType_Some [OF t'] obtain post where
      ty: "t' = ''c'' \<or> t' = ''g'' \<or> t' = ''ms''" and p: "drop (Suc (Suc n)) s = t' @ post"
      by blast
    from True have b: "drop (Suc n) s = CHR ''|'' # drop 1 (drop (Suc n) s)"
      by (intro take1_eq) simp
    then have len: "Suc n < length s" by (cases "Suc n < length s") simp_all
    have "s = take (Suc n) s @ drop (Suc n) s" by simp
    also have "drop (Suc n) s = ''|'' @ t' @ post" using b p by simp
    finally have "s = v @ ''|'' @ t @ post" by (simp add: vt)
    moreover have "length v = Suc n" using len by (simp add: vt)
    ultimately show ?thesis using vt ty by blast
  next
    case False
    with Suc.prems have "matchValue n s = Some (v, t)" by (auto split: if_splits option.splits)
    from Suc.IH [OF this] show ?thesis by (meson le_Suc_eq)
  qed
qed

lemma matchValue_complete:
  assumes "0 < m" "m \<le> n" "take 1 (drop m s) = ''|''" "matchType (drop (Suc m) s) \<noteq> None"
  shows "matchValue n s \<noteq> None"
  using assms(2)
proof (induction n)
  case 0
  with assms(1) show ?case by simp
next
  case (Suc n)
  show ?case
  proof (cases "m = Suc n")
    case True
    with assms(3,4) show ?thesis by (auto split: option.splits)
  next
    case False
    with Suc.prems have "m \<le> n" by simp
    from Suc.IH [OF this] show ?thesis by (auto split: option.splits)
  qed
qed

lemma take_takeWhile:
  "m \<le> length (takeWhile P s) \<Longrightarrow> take m s = take m (takeWhile P s)"
proof -
  assume m: "m \<le> length (takeWhile P s)"
  have "take m s = take m (takeWhile P s @ dropWhile P s)" by simp
  also have "\<dots> = take m (takeWhile P s)" using m by (simp only: take_append) simp
  finally show ?thesis .
qed

lemma matchAfterColon_Some:
  assumes "matchAfterColon vc s = Some (v, t)"
  shows "\<exists>post. s = v @ ''|'' @ t @ post \<and> v \<noteq> [] \<and> list_all vc v \<and>
                (t = ''c'' \<or> t = ''g'' \<or> t = ''ms'')"
proof -
  from matchValue_Some [OF assms [unfolded matchAfterColon_def]] obtain m post where
    m: "0 < m" "m \<le> length (takeWhile vc s)" "v = take m s" "length v = m"
      "s = v @ ''|'' @ t @ post" "t = ''c'' \<or> t = ''g'' \<or> t = ''ms''"
    by blast
  have "v = take m (takeWhile vc s)" using m(3) take_takeWhile [OF m(2)] by simp
  then have "set v \<subseteq> set (takeWhile vc s)" by (simp add: set_take_subset)
  then have "list_all vc v" by (auto simp: list_all_iff dest: set_takeWhileD)
  moreover have "v \<noteq> []" using m(1,4) by auto
  ultimately show ?thesis using m(5,6) by blast
qed

lemma matchAfterColon_complete:
  assumes "v \<noteq> []" "list_all vc v" "t = ''c'' \<or> t = ''g'' \<or> t = ''ms''"
  shows "matchAfterColon vc (v @ ''|'' @ t @ post) \<noteq> None"
proof -
  let ?s = "v @ ''|'' @ t @ post"
  have "takeWhile vc ?s = v @ takeWhile vc (''|'' @ t @ post)"
    using assms(2) by (intro takeWhile_append2) (simp add: list_all_iff)
  then have le: "length v \<le> length (takeWhile vc ?s)" by simp
  have "matchValue (length (takeWhile vc ?s)) ?s \<noteq> None"
  proof (rule matchValue_complete [OF _ le])
    show "0 < length v" using assms(1) by simp
    show "take 1 (drop (length v) ?s) = ''|''" by simp
    have "drop (Suc (length v)) ?s = t @ post" by (simp add: drop_Suc [symmetric] del: drop_Suc)
    then show "matchType (drop (Suc (length v)) ?s) \<noteq> None"
      using matchType_complete [OF assms(3)] by simp
  qed
  then show ?thesis by (simp add: matchAfterColon_def)
qed

lemma matchName_Some:
  assumes "matchName vc k s = Some (n, v, t)"
  shows "\<exists>post. s = n @ '':'' @ v @ ''|'' @ t @ post \<and> v \<noteq> [] \<and> list_all vc v \<and>
                (t = ''c'' \<or> t = ''g'' \<or> t = ''ms'') \<and> (\<exists>j \<le> k. n = take j s)"
  using assms
proof (induction k)
  case 0
  then have c: "take 1 s = '':''" and a: "matchAfterColon vc (drop 1 s) = Some (v, t)"
    and n: "n = []"
    by (auto split: if_splits option.splits)
  from take1_eq [OF c] have s: "s = '':'' @ drop 1 s" by simp
  from matchAfterColon_Some [OF a] obtain post where
    "drop 1 s = v @ ''|'' @ t @ post" "v \<noteq> []" "list_all vc v"
    "t = ''c'' \<or> t = ''g'' \<or> t = ''ms''" by blast
  with s n have "s = n @ '':'' @ v @ ''|'' @ t @ post \<and> v \<noteq> [] \<and> list_all vc v \<and>
                (t = ''c'' \<or> t = ''g'' \<or> t = ''ms'') \<and> (0 \<le> (0 :: nat) \<and> n = take 0 s)"
    by simp
  then show ?case by blast
next
  case (Suc k)
  show ?case
  proof (cases "take 1 (drop (Suc k) s) = '':'' \<and>
                matchAfterColon vc (drop (Suc (Suc k)) s) \<noteq> None")
    case True
    then obtain v' t' where a: "matchAfterColon vc (drop (Suc (Suc k)) s) = Some (v', t')"
      by auto
    with True Suc.prems have e: "n = take (Suc k) s" "v = v'" "t = t'" by simp_all
    from True have b: "drop (Suc k) s = CHR '':'' # drop 1 (drop (Suc k) s)"
      by (intro take1_eq) simp
    from matchAfterColon_Some [OF a] obtain post where
      p: "drop (Suc (Suc k)) s = v' @ ''|'' @ t' @ post" and
      c: "v' \<noteq> []" "list_all vc v'" "t' = ''c'' \<or> t' = ''g'' \<or> t' = ''ms''" by blast
    have "s = take (Suc k) s @ drop (Suc k) s" by simp
    also have "drop (Suc k) s = '':'' @ v' @ ''|'' @ t' @ post" using b p by simp
    finally have "s = n @ '':'' @ v @ ''|'' @ t @ post" by (simp add: e)
    with c e have "s = n @ '':'' @ v @ ''|'' @ t @ post \<and> v \<noteq> [] \<and> list_all vc v \<and>
                (t = ''c'' \<or> t = ''g'' \<or> t = ''ms'') \<and> (Suc k \<le> Suc k \<and> n = take (Suc k) s)"
      by simp
    then show ?thesis by blast
  next
    case False
    with Suc.prems have "matchName vc k s = Some (n, v, t)"
      by (auto split: if_splits option.splits)
    from Suc.IH [OF this] obtain post j where
      "s = n @ '':'' @ v @ ''|'' @ t @ post" "v \<noteq> []" "list_all vc v"
      "t = ''c'' \<or> t = ''g'' \<or> t = ''ms''" "j \<le> k" "n = take j s" by blast
    then have "s = n @ '':'' @ v @ ''|'' @ t @ post \<and> v \<noteq> [] \<and> list_all vc v \<and>
                (t = ''c'' \<or> t = ''g'' \<or> t = ''ms'') \<and> (j \<le> Suc k \<and> n = take j s)"
      by simp
    then show ?thesis by blast
  qed
qed

lemma matchName_complete:
  assumes "j \<le> k" "take 1 (drop j s) = '':''" "matchAfterColon vc (drop (Suc j) s) \<noteq> None"
  shows "matchName vc k s \<noteq> None"
  using assms(1)
proof (induction k)
  case 0
  with assms(2,3) show ?case by (auto split: option.splits)
next
  case (Suc k)
  show ?case
  proof (cases "j = Suc k")
    case True
    with assms(2,3) show ?thesis by (auto split: option.splits)
  next
    case False
    with Suc.prems have "j \<le> k" by simp
    from Suc.IH [OF this] show ?thesis by (auto split: option.splits)
  qed
qed

lemma findSubmatch_Some:
  assumes "findSubmatch vc s = Some m"
  shows "\<exists>pre suffix. s = pre @ suffix \<and> matchAt vc suffix = Some m"
  using assms
proof (induction s)
  case Nil
  then show ?case by simp
next
  case (Cons c s)
  show ?case
  proof (cases "matchAt vc (c # s)")
    case None
    with Cons.prems have "findSubmatch vc s = Some m" by simp
    from Cons.IH [OF this] obtain pre suffix where
      "s = pre @ suffix" "matchAt vc suffix = Some m" by blast
    then have "c # s = (c # pre) @ suffix \<and> matchAt vc suffix = Some m" by simp
    then show ?thesis by blast
  next
    case (Some m')
    with Cons.prems have "c # s = [] @ (c # s) \<and> matchAt vc (c # s) = Some m" by simp
    then show ?thesis by blast
  qed
qed

lemma findSubmatch_complete:
  assumes "matchAt vc suffix \<noteq> None"
  shows "findSubmatch vc (pre @ suffix) \<noteq> None"
proof (induction pre)
  case Nil
  show ?case using assms by (cases suffix) (auto split: option.splits)
next
  case (Cons c pre)
  then show ?case by (auto split: option.splits)
qed

text \<open>
  The search finds \<^verbatim>\<open>(.*):(class+)\|(c|g|ms)\<close> in a line exactly when the line has a colon
  followed by one or more characters of the class, a bar and a type letter; and what it
  captures is such a place of the line, with a name that holds no newline.
\<close>

lemma findSubmatch_captures:
  assumes "findSubmatch vc line = Some (name, v, t)"
  shows "\<exists>pre post. line = pre @ name @ '':'' @ v @ ''|'' @ t @ post \<and> v \<noteq> [] \<and>
           list_all vc v \<and> (t = ''c'' \<or> t = ''g'' \<or> t = ''ms'') \<and>
           CHR 0x0A \<notin> set name"
proof -
  from findSubmatch_Some [OF assms] obtain pre suffix where
    l: "line = pre @ suffix" and m: "matchAt vc suffix = Some (name, v, t)" by blast
  from matchName_Some [OF m [unfolded matchAt_def]] obtain post j where
    s: "suffix = name @ '':'' @ v @ ''|'' @ t @ post" and
    c: "v \<noteq> []" "list_all vc v" "t = ''c'' \<or> t = ''g'' \<or> t = ''ms''" and
    j: "j \<le> length (takeWhile (\<lambda>c. c \<noteq> CHR 0x0A) suffix)" "name = take j suffix"
    by blast
  have "name = take j (takeWhile (\<lambda>c. c \<noteq> CHR 0x0A) suffix)"
    using j(2) take_takeWhile [OF j(1)] by simp
  then have "set name \<subseteq> set (takeWhile (\<lambda>c. c \<noteq> CHR 0x0A) suffix)"
    by (simp add: set_take_subset)
  then have "CHR 0x0A \<notin> set name" by (auto dest: set_takeWhileD)
  with l s c show ?thesis by auto
qed

lemma findSubmatch_iff_grammar: "findSubmatch vc line \<noteq> None \<longleftrightarrow> grammar vc line"
proof
  assume "findSubmatch vc line \<noteq> None"
  then obtain name v t where "findSubmatch vc line = Some (name, v, t)" by auto
  from findSubmatch_captures [OF this] obtain pre post where
    "line = (pre @ name) @ '':'' @ v @ ''|'' @ t @ post" "v \<noteq> []" "list_all vc v"
    "t = ''c'' \<or> t = ''g'' \<or> t = ''ms''" by auto
  then show "grammar vc line" unfolding grammar_def by blast
next
  assume "grammar vc line"
  then obtain pre v t post where
    l: "line = pre @ '':'' @ v @ ''|'' @ t @ post" and
    c: "v \<noteq> []" "list_all vc v" "t = ''c'' \<or> t = ''g'' \<or> t = ''ms''"
    unfolding grammar_def by blast
  let ?suffix = "'':'' @ v @ ''|'' @ t @ post"
  have "matchName vc (length (takeWhile (\<lambda>c. c \<noteq> CHR 0x0A) ?suffix)) ?suffix \<noteq> None"
  proof (rule matchName_complete [of 0])
    show "take 1 (drop 0 ?suffix) = '':''" by simp
    show "matchAfterColon vc (drop (Suc 0) ?suffix) \<noteq> None"
      using matchAfterColon_complete [OF c] by simp
  qed simp
  then have "matchAt vc ?suffix \<noteq> None" by (simp add: matchAt_def)
  from findSubmatch_complete [OF this, of pre] show "findSubmatch vc line \<noteq> None"
    by (simp add: l)
qed

lemma processIncomingMessage_routes_iff:
  "processIncomingMessage parseFloat now line \<noteq> [] \<longleftrightarrow> grammar valueChar line"
proof (cases "findSubmatch valueChar line")
  case None
  then have "processIncomingMessage parseFloat now line = []"
    by (simp add: processIncomingMessage_def parseDatapoint_def emptyDatapoint_def)
  with None findSubmatch_iff_grammar [of valueChar line] show ?thesis by simp
next
  case (Some m)
  obtain name v t where m: "m = (name, v, t)" by (cases m)
  from findSubmatch_captures [OF Some [unfolded m]]
  have "t = ''c'' \<or> t = ''g'' \<or> t = ''ms''" by blast
  then have "processIncomingMessage parseFloat now line \<noteq> []"
    by (auto simp: processIncomingMessage_def parseDatapoint_def Some m)
  with Some findSubmatch_iff_grammar [of valueChar line] show ?thesis by simp
qed

lemma processIncomingMessage_routed:
  assumes "findSubmatch valueChar line = Some (name, v, t)"
  shows "processIncomingMessage parseFloat now line =
     (let d = \<lparr>Datapoint.Timestamp = now, Name = name, Value = parseFloat v, Datatype = t\<rparr>
      in if t = ''g'' then [ToGauge d] else if t = ''c'' then [ToCounter d] else [ToTimer d])"
proof -
  from findSubmatch_captures [OF assms]
  have "t = ''c'' \<or> t = ''g'' \<or> t = ''ms''" by blast
  then show ?thesis
    by (auto simp: processIncomingMessage_def parseDatapoint_def assms)
qed

text \<open>
  C1, at the line \<open>a:1|2|c\<close>. The line does not match the grammar
  \<open><name>:<value>|<type>\<close> with \<open><value>\<close> in \<open>[0-9.]+\<close>: after its only colon stands \<open>1\<close>,
  then a bar, then \<open>2\<close>, which is no type letter. The parser of the source matches it all
  the same, because the character class of its expression holds the bar: it captures the
  name \<open>a\<close>, the value text \<open>1|2\<close> and the type \<open>c\<close>, and the dispatcher routes a Datapoint
  with these to the counter queue. Its value is what \<^verbatim>\<open>strconv.ParseFloat\<close> returns for
  \<open>1|2\<close>, which is no number.
\<close>

theorem parseDatapoint_accepts_bar_in_value:
  "\<not> grammar specValueChar ''a:1|2|c'' \<and>
   grammar valueChar ''a:1|2|c'' \<and>
   findSubmatch valueChar ''a:1|2|c'' = Some (''a'', ''1|2'', ''c'') \<and>
   processIncomingMessage parseFloat now ''a:1|2|c'' =
     [ToCounter \<lparr>Datapoint.Timestamp = now, Name = ''a'', Value = parseFloat ''1|2'',
                 Datatype = ''c''\<rparr>]"
proof -
  have spec: "findSubmatch specValueChar ''a:1|2|c'' = None" by code_simp
  have code: "findSubmatch valueChar ''a:1|2|c'' = Some (''a'', ''1|2'', ''c'')" by code_simp
  have "\<not> grammar specValueChar ''a:1|2|c''"
    using findSubmatch_iff_grammar [of specValueChar "''a:1|2|c''"] spec by simp
  moreover have "grammar valueChar ''a:1|2|c''"
    using findSubmatch_iff_grammar [of valueChar "''a:1|2|c''"] code by simp
  moreover have "processIncomingMessage parseFloat now ''a:1|2|c'' =
     [ToCounter \<lparr>Datapoint.Timestamp = now, Name = ''a'', Value = parseFloat ''1|2'',
                 Datatype = ''c''\<rparr>]"
    by (simp add: processIncomingMessage_routed [OF code])
  ultimately show ?thesis using code by blast
qed

subsection \<open>The historical sink writer\<close>

lemma payloads_simps [simp]:
  "payloads name [] = []"
  "payloads name ((ob, f) # ch) =
     (if AggregateObservation.Name ob = name then Content ob @ payloads name ch
      else payloads name ch)"
  by (simp_all add: payloads_def)

lemma occurs_simps [simp]:
  "occurs name [] = False"
  "occurs name ((ob, f) # ch) = (AggregateObservation.Name ob = name \<or> occurs name ch)"
  by (simp_all add: occurs_def)

lemma appendObservation_faultless:
  assumes "\<not> open_fails f" "\<not> create_fails f" "\<not> write_fails f"
  shows "\<exists>st'. appendObservation calc dirOf rootDir st (ob, f) = Inr st' \<and>
     files st' = (files st)(calc (AggregateObservation.Name ob) rootDir \<mapsto>
        (case files st (calc (AggregateObservation.Name ob) rootDir) of
           Some content \<Rightarrow> content @ Content ob
         | None \<Rightarrow> ''v2 '' @ AggregateObservation.Name ob @ ''\<newline>'' @ Content ob)) \<and>
     datapoints st' =
       (case files st (calc (AggregateObservation.Name ob) rootDir) of
          Some content \<Rightarrow> datapoints st
        | None \<Rightarrow> datapoints st @ [AggregateObservation.Name ob])"
  using assms by (auto simp: appendObservation_def Let_def split: option.splits)

lemma appendToFile_faultless:
  assumes inj: "inj (\<lambda>name. calc name rootDir)" and ok: "faultless ch"
  shows "\<exists>st'. appendToFile calc dirOf rootDir st ch = Inr st' \<and>
     (\<forall>name. files st' (calc name rootDir) =
        (case files st (calc name rootDir) of
           Some content \<Rightarrow> Some (content @ payloads name ch)
         | None \<Rightarrow> if occurs name ch
                    then Some (''v2 '' @ name @ ''\<newline>'' @ payloads name ch) else None)) \<and>
     (\<forall>name. count_list (datapoints st') name =
        count_list (datapoints st) name +
        (if occurs name ch \<and> files st (calc name rootDir) = None then 1 else 0))"
  using ok
proof (induction ch arbitrary: st)
  case Nil
  then show ?case by (simp split: option.splits)
next
  case (Cons x ch)
  obtain ob f where x: "x = (ob, f)" by (cases x)
  from Cons.prems x have f: "\<not> open_fails f" "\<not> create_fails f" "\<not> write_fails f"
    and ok: "faultless ch"
    by (simp_all add: faultless_def)
  let ?n = "AggregateObservation.Name ob"
  from appendObservation_faultless [OF f, of calc dirOf rootDir st ob] obtain st1 where
    s: "appendObservation calc dirOf rootDir st (ob, f) = Inr st1" and
    fs: "files st1 = (files st)(calc ?n rootDir \<mapsto>
        (case files st (calc ?n rootDir) of
           Some content \<Rightarrow> content @ Content ob
         | None \<Rightarrow> ''v2 '' @ ?n @ ''\<newline>'' @ Content ob))" and
    dp: "datapoints st1 =
       (case files st (calc ?n rootDir) of
          Some content \<Rightarrow> datapoints st
        | None \<Rightarrow> datapoints st @ [?n])"
    by blast
  from Cons.IH [OF ok, of st1] obtain st' where
    r: "appendToFile calc dirOf rootDir st1 ch = Inr st'" and
    F: "\<forall>name. files st' (calc name rootDir) =
        (case files st1 (calc name rootDir) of
           Some content \<Rightarrow> Some (content @ payloads name ch)
         | None \<Rightarrow> if occurs name ch
                    then Some (''v2 '' @ name @ ''\<newline>'' @ payloads name ch) else None)" and
    D: "\<forall>name. count_list (datapoints st') name =
        count_list (datapoints st1) name +
        (if occurs name ch \<and> files st1 (calc name rootDir) = None then 1 else 0)"
    by blast
  have e: "calc name rootDir = calc ?n rootDir \<longleftrightarrow> name = ?n" for name
    using inj by (auto dest: injD)
  have run: "appendToFile calc dirOf rootDir st (x # ch) = Inr st'"
    by (simp add: x s r)
  have files': "files st' (calc name rootDir) =
        (case files st (calc name rootDir) of
           Some content \<Rightarrow> Some (content @ payloads name (x # ch))
         | None \<Rightarrow> if occurs name (x # ch)
                    then Some (''v2 '' @ name @ ''\<newline>'' @ payloads name (x # ch)) else None)"
    for name
  proof (cases "name = ?n")
    case True
    show ?thesis
      using F [rule_format, of name] by (simp add: fs x True split: option.splits)
  next
    case False
    then have "files st1 (calc name rootDir) = files st (calc name rootDir)"
      by (simp add: fs e)
    with F [rule_format, of name] False show ?thesis
      by (auto simp: x split: option.splits)
  qed
  have count': "count_list (datapoints st') name =
        count_list (datapoints st) name +
        (if occurs name (x # ch) \<and> files st (calc name rootDir) = None then 1 else 0)"
    for name
  proof (cases "name = ?n")
    case True
    show ?thesis
      using D [rule_format, of name] by (simp add: fs dp x True split: option.splits)
  next
    case False
    then have "files st1 (calc name rootDir) = files st (calc name rootDir)"
      by (simp add: fs e)
    with D [rule_format, of name] False show ?thesis
      by (auto simp: dp x split: option.splits)
  qed
  from run files' count' show ?case by blast
qed

lemma count_list_map_inj:
  "inj f \<Longrightarrow> count_list (map f xs) (f x) = count_list xs x"
  by (induction xs) (auto dest: injD)

lemma count_saveNewDatapoints:
  "count_list (saveNewDatapoints ch) (Sadd ''datapoints'' name) = count_list ch name"
  unfolding saveNewDatapoints_def
  by (rule count_list_map_inj) (simp add: inj_def)

text \<open>
  C8, as the code has it. For every observation the historical sink writer consumes: an
  error of \<^verbatim>\<open>os.OpenFile\<close> other than \<^verbatim>\<open>ENOENT\<close> is fatal to the process, and no other failure
  is (the errors of \<^verbatim>\<open>os.MkdirAll\<close> and \<^verbatim>\<open>os.Create\<close> are printed, those of the writes are
  dropped). If opening fails with \<^verbatim>\<open>ENOENT\<close> and creating and writing succeed, the writer
  makes the parent directory (when \<^verbatim>\<open>os.MkdirAll\<close> succeeds) and the file, the file holds the
  header line \<open>v2 <channel>\<close> and a newline followed by the payload, and the channel name
  is enqueued to the name registry once. Over a run in which opening, creating and
  writing succeed and the resolver gives distinct channels distinct files: a file that
  was missing at the start and whose channel occurs holds the header once, as its first
  line, followed by the payloads of the channel in order, and the registry receives
  exactly one add for that channel; a file that was there is appended to and its channel
  is not added again.
\<close>

theorem appendToFile_first_creation:
  assumes inj: "inj (\<lambda>name. calc name rootDir)" and ok: "faultless ch"
  shows "(\<exists>st'. appendToFile calc dirOf rootDir st ch = Inr st' \<and>
            (\<forall>name. files st' (calc name rootDir) =
               (case files st (calc name rootDir) of
                  Some content \<Rightarrow> Some (content @ payloads name ch)
                | None \<Rightarrow> if occurs name ch
                           then Some (''v2 '' @ name @ ''\<newline>'' @ payloads name ch)
                           else None)) \<and>
            (\<forall>name. count_list (saveNewDatapoints (datapoints st')) (Sadd ''datapoints'' name) =
               count_list (saveNewDatapoints (datapoints st)) (Sadd ''datapoints'' name) +
               (if occurs name ch \<and> files st (calc name rootDir) = None then 1 else 0))) \<and>
         (open_fails f \<longrightarrow> appendObservation calc dirOf rootDir st (ob, f) = Inl Panic) \<and>
         (\<not> open_fails f \<longrightarrow> (\<exists>st'. appendObservation calc dirOf rootDir st (ob, f) = Inr st')) \<and>
         (\<not> open_fails f \<and> \<not> mkdir_fails f \<and> \<not> create_fails f \<and> \<not> write_fails f \<and>
          files st (calc (AggregateObservation.Name ob) rootDir) = None \<longrightarrow>
            (\<exists>st'. appendObservation calc dirOf rootDir st (ob, f) = Inr st' \<and>
               files st' (calc (AggregateObservation.Name ob) rootDir) =
                 Some (''v2 '' @ AggregateObservation.Name ob @ ''\<newline>'' @ Content ob) \<and>
               dirs st' = insert (dirOf (calc (AggregateObservation.Name ob) rootDir)) (dirs st) \<and>
               datapoints st' = datapoints st @ [AggregateObservation.Name ob]))"
proof -
  from appendToFile_faultless [where calc = calc and rootDir = rootDir and ch = ch and dirOf = dirOf and st = st, OF inj ok]
  have run: "\<exists>st'. appendToFile calc dirOf rootDir st ch = Inr st' \<and>
            (\<forall>name. files st' (calc name rootDir) =
               (case files st (calc name rootDir) of
                  Some content \<Rightarrow> Some (content @ payloads name ch)
                | None \<Rightarrow> if occurs name ch
                           then Some (''v2 '' @ name @ ''\<newline>'' @ payloads name ch)
                           else None)) \<and>
            (\<forall>name. count_list (saveNewDatapoints (datapoints st')) (Sadd ''datapoints'' name) =
               count_list (saveNewDatapoints (datapoints st)) (Sadd ''datapoints'' name) +
               (if occurs name ch \<and> files st (calc name rootDir) = None then 1 else 0))"
    by (simp only: count_saveNewDatapoints)
  have fatal: "open_fails f \<longrightarrow> appendObservation calc dirOf rootDir st (ob, f) = Inl Panic"
    by (simp add: appendObservation_def Let_def)
  have other: "\<not> open_fails f \<longrightarrow>
      (\<exists>st'. appendObservation calc dirOf rootDir st (ob, f) = Inr st')"
    by (simp add: appendObservation_def Let_def split: option.splits)
  have new: "\<not> open_fails f \<and> \<not> mkdir_fails f \<and> \<not> create_fails f \<and> \<not> write_fails f \<and>
          files st (calc (AggregateObservation.Name ob) rootDir) = None \<longrightarrow>
            (\<exists>st'. appendObservation calc dirOf rootDir st (ob, f) = Inr st' \<and>
               files st' (calc (AggregateObservation.Name ob) rootDir) =
                 Some (''v2 '' @ AggregateObservation.Name ob @ ''\<newline>'' @ Content ob) \<and>
               dirs st' = insert (dirOf (calc (AggregateObservation.Name ob) rootDir)) (dirs st) \<and>
               datapoints st' = datapoints st @ [AggregateObservation.Name ob])"
    by (simp add: appendObservation_def Let_def)
  from run fatal other new show ?thesis by (intro conjI)
qed

theorem appendToFile_first_creation_witness:
  "inj (\<lambda>name. samplePath name ''/data'') \<and>
   faultless
     [(\<lparr>AggregateObservation.Name = ''gauges:temp'', Content = ''100 72\<newline>'', Timestamp = 0\<rparr>,
       \<lparr>open_fails = False, mkdir_fails = False, create_fails = False, write_fails = False\<rparr>),
      (\<lparr>AggregateObservation.Name = ''gauges:temp'', Content = ''101 73\<newline>'', Timestamp = 0\<rparr>,
       \<lparr>open_fails = False, mkdir_fails = False, create_fails = False, write_fails = False\<rparr>)] \<and>
   (\<exists>st'. appendToFile samplePath sampleDir ''/data''
            \<lparr>files = Map.empty, dirs = {}, datapoints = []\<rparr>
     [(\<lparr>AggregateObservation.Name = ''gauges:temp'', Content = ''100 72\<newline>'', Timestamp = 0\<rparr>,
       \<lparr>open_fails = False, mkdir_fails = False, create_fails = False, write_fails = False\<rparr>),
      (\<lparr>AggregateObservation.Name = ''gauges:temp'', Content = ''101 73\<newline>'', Timestamp = 0\<rparr>,
       \<lparr>open_fails = False, mkdir_fails = False, create_fails = False, write_fails = False\<rparr>)] =
       Inr st' \<and>
     files st' (samplePath ''gauges:temp'' ''/data'') =
       Some ''v2 gauges:temp\<newline>100 72\<newline>101 73\<newline>'' \<and>
     count_list (saveNewDatapoints (datapoints st')) (Sadd ''datapoints'' ''gauges:temp'') = 1) \<and>
   appendObservation samplePath sampleDir ''/data''
      \<lparr>files = Map.empty, dirs = {}, datapoints = []\<rparr>
      (\<lparr>AggregateObservation.Name = ''gauges:temp'', Content = ''100 72\<newline>'', Timestamp = 0\<rparr>,
       \<lparr>open_fails = True, mkdir_fails = False, create_fails = False, write_fails = False\<rparr>) =
     Inl Panic"
proof -
  let ?ok = "\<lparr>open_fails = False, mkdir_fails = False, create_fails = False, write_fails = False\<rparr>"
  let ?bad = "\<lparr>open_fails = True, mkdir_fails = False, create_fails = False, write_fails = False\<rparr>"
  let ?o1 = "\<lparr>AggregateObservation.Name = ''gauges:temp'', Content = ''100 72\<newline>'', Timestamp = 0\<rparr>"
  let ?o2 = "\<lparr>AggregateObservation.Name = ''gauges:temp'', Content = ''101 73\<newline>'', Timestamp = 0\<rparr>"
  let ?st = "\<lparr>files = Map.empty, dirs = {}, datapoints = []\<rparr>"
  have inj: "inj (\<lambda>name. samplePath name ''/data'')"
    by (simp add: inj_def samplePath_def)
  have ok: "faultless [(?o1, ?ok), (?o2, ?ok)]"
    by (simp add: faultless_def)
  note inst = appendToFile_first_creation [where calc = samplePath and rootDir = "''/data''"
      and ch = "[(?o1, ?ok), (?o2, ?ok)]" and dirOf = sampleDir and st = ?st and f = ?bad
      and ob = ?o1, OF inj ok]
  from inst obtain st' where
    r: "appendToFile samplePath sampleDir ''/data'' ?st [(?o1, ?ok), (?o2, ?ok)] = Inr st'" and
    F: "\<forall>name. files st' (samplePath name ''/data'') =
               (case files ?st (samplePath name ''/data'') of
                  Some content \<Rightarrow> Some (content @ payloads name [(?o1, ?ok), (?o2, ?ok)])
                | None \<Rightarrow> if occurs name [(?o1, ?ok), (?o2, ?ok)]
                           then Some (''v2 '' @ name @ ''\<newline>'' @
                                      payloads name [(?o1, ?ok), (?o2, ?ok)])
                           else None)" and
    D: "\<forall>name. count_list (saveNewDatapoints (datapoints st')) (Sadd ''datapoints'' name) =
               count_list (saveNewDatapoints (datapoints ?st)) (Sadd ''datapoints'' name) +
               (if occurs name [(?o1, ?ok), (?o2, ?ok)] \<and>
                   files ?st (samplePath name ''/data'') = None then 1 else 0)"
    by blast
  from F [rule_format, of "''gauges:temp''"]
  have f: "files st' (samplePath ''gauges:temp'' ''/data'') =
       Some ''v2 gauges:temp\<newline>100 72\<newline>101 73\<newline>''"
    by simp
  from D [rule_format, of "''gauges:temp''"]
  have d: "count_list (saveNewDatapoints (datapoints st')) (Sadd ''datapoints'' ''gauges:temp'') = 1"
    by (simp add: saveNewDatapoints_def)
  from inst have p: "appendObservation samplePath sampleDir ''/data'' ?st (?o1, ?bad) = Inl Panic"
    by simp
  from r f d have "\<exists>st'. appendToFile samplePath sampleDir ''/data'' ?st
        [(?o1, ?ok), (?o2, ?ok)] = Inr st' \<and>
     files st' (samplePath ''gauges:temp'' ''/data'') =
       Some ''v2 gauges:temp\<newline>100 72\<newline>101 73\<newline>'' \<and>
     count_list (saveNewDatapoints (datapoints st')) (Sadd ''datapoints'' ''gauges:temp'') = 1"
    by blast
  with inj ok p show ?thesis by (intro conjI)
qed

text \<open>
  Against C8 as stated: two observations of the channel \<open>gauges:temp\<close>, whose file does not
  exist, with \<^verbatim>\<open>os.Create\<close> failing both times (a root that cannot be written to). The
  failure to create, an I/O error that is not the \<^verbatim>\<open>ENOENT\<close> of the first open, is not
  fatal: the writer goes on. No file and no header line exist afterwards, and the name
  was sent to the registry twice, so the registry set receives two adds for it.
\<close>

theorem appendToFile_create_fails_counterexample:
  "appendToFile samplePath sampleDir ''/data''
     \<lparr>files = Map.empty, dirs = {}, datapoints = []\<rparr>
     [(\<lparr>AggregateObservation.Name = ''gauges:temp'', Content = ''100 72\<newline>'', Timestamp = 0\<rparr>,
       \<lparr>open_fails = False, mkdir_fails = False, create_fails = True, write_fails = False\<rparr>),
      (\<lparr>AggregateObservation.Name = ''gauges:temp'', Content = ''101 73\<newline>'', Timestamp = 0\<rparr>,
       \<lparr>open_fails = False, mkdir_fails = False, create_fails = True, write_fails = False\<rparr>)] =
     Inr \<lparr>files = Map.empty, dirs = {''/data''},
          datapoints = [''gauges:temp'', ''gauges:temp'']\<rparr> \<and>
   saveNewDatapoints [''gauges:temp'', ''gauges:temp''] =
     [Sadd ''datapoints'' ''gauges:temp'', Sadd ''datapoints'' ''gauges:temp'']"
  by (simp add: appendObservation_def samplePath_def sampleDir_def saveNewDatapoints_def)

end
